theory Spec2Isabelle
  imports Main Complex_Main "HOL-Library.Word"
begin

section \<open>Shared data model\<close>

text \<open>
  The order-taker daemon is written in TypeScript. A value of its type \<open>number\<close> is a
  finite number (kept by its real value), one of the two infinities, or the not-a-number
  value \<open>NaN\<close>.
\<close>

datatype number = Num real | PosInfinity | NegInfinity | NaN

text \<open>
  The comparisons \<open>a < b\<close>, \<open>a <= b\<close> and \<open>a > b\<close> of the language: each of them is
  false as soon as one of its operands is \<open>NaN\<close>.
\<close>

fun jsLess :: "number \<Rightarrow> number \<Rightarrow> bool" where
  "jsLess (Num a) (Num b) = (a < b)"
| "jsLess (Num a) PosInfinity = True"
| "jsLess NegInfinity (Num b) = True"
| "jsLess NegInfinity PosInfinity = True"
| "jsLess a b = False"

fun jsLessEq :: "number \<Rightarrow> number \<Rightarrow> bool" where
  "jsLessEq NaN b = False"
| "jsLessEq a NaN = False"
| "jsLessEq a b = (\<not> jsLess b a)"

definition jsGreater :: "number \<Rightarrow> number \<Rightarrow> bool" where
  "jsGreater a b = jsLess b a"

text \<open>
  What a property holds at run time: a value, or \<open>undefined\<close>. The properties of
  \<open>UniversalProcessorParams\<close> are declared as numbers, and \<open>Object.assign\<close> from a
  \<open>Partial<UniversalProcessorParams>\<close> can leave \<open>undefined\<close> in them.
\<close>

datatype 'a orUndefined = Undefined | Defined 'a

text \<open>The chains of \<open>SupportedChain\<close>, the keys of \<open>BLOCK_CONFIRMATIONS_HARD_CAPS\<close>.\<close>

datatype ChainId = Avalanche | Arbitrum | BSC | Ethereum | Polygon | Solana | Fantom

type_synonym SupportedChain = ChainId

text \<open>An address is a byte buffer (\<open>Uint8Array\<close>).\<close>

type_synonym bytes = "8 word list"

record Offer =
  chainId :: ChainId
  tokenAddress :: bytes
  amount :: nat

text \<open>
  \<open>OrderData\<close>: the two sides of an order, \<open>order.give\<close> and \<open>order.take\<close> (here
  \<open>take_offer\<close>, \<open>take\<close> being a function on lists).
\<close>

record OrderData =
  give :: Offer
  take_offer :: Offer

datatype OrderInfoStatus =
  Created | ArchivalCreated | Fulfilled | ArchivalFulfilled | Cancelled | Other

text \<open>
  An incoming event of the order feed. The executor reads the status as \<open>status\<close>, the
  universal processor as \<open>type\<close>: one field here. The payload \<open>order\<close> is optional;
  \<open>orderId\<close> is a string, whose only falsy value is the empty string.
\<close>

record IncomingOrder =
  orderId :: string
  status :: OrderInfoStatus
  order :: "OrderData option"

text \<open>Every \<open>throw\<close> of the modelled code is a value of this type.\<close>

datatype error =
    BatchUnlockSizeRange
  | ConfirmationsNotGreater number number number
  | ConfirmationsNotLess number number number
  | OrderIsUndefined
  | OrderIsEmpty
  | NoTokenBucket
  | OrderIsFulfilled
  | OrderIsNotCreated
  | UnexpectedOrderStatus OrderInfoStatus
  | MarketMakerOrderIsFulfilled
  | RetriesLimitReached
  | Rejected string

section \<open>UniversalProcessor: construction\<close>

record UniversalProcessorParams =
  minProfitabilityBps :: "number orUndefined"
  mempoolInterval :: "number orUndefined"
  batchUnlockSize :: "number orUndefined"

text \<open>
  \<open>Partial<UniversalProcessorParams>\<close>: a property that the object does not have is
  \<open>None\<close>; a property that it has holds a number or \<open>undefined\<close>.
\<close>

record PartialParams =
  p_minProfitabilityBps :: "number orUndefined option"
  p_mempoolInterval :: "number orUndefined option"
  p_batchUnlockSize :: "number orUndefined option"

text \<open>The field initialiser of \<open>params\<close>.\<close>

definition defaultParams :: UniversalProcessorParams where
  "defaultParams =
     \<lparr>minProfitabilityBps = Defined (Num 4), mempoolInterval = Defined (Num 60),
      batchUnlockSize = Defined (Num 10)\<rparr>"

text \<open>
  \<open>Object.assign(this.params, params || {})\<close>: every property the object has overwrites,
  whatever it holds.
\<close>

definition assignParams :: "UniversalProcessorParams \<Rightarrow> PartialParams \<Rightarrow> UniversalProcessorParams" where
  "assignParams d p =
     \<lparr>minProfitabilityBps = (case p_minProfitabilityBps p of None \<Rightarrow> minProfitabilityBps d | Some v \<Rightarrow> v),
      mempoolInterval = (case p_mempoolInterval p of None \<Rightarrow> mempoolInterval d | Some v \<Rightarrow> v),
      batchUnlockSize = (case p_batchUnlockSize p of None \<Rightarrow> batchUnlockSize d | Some v \<Rightarrow> v)\<rparr>"

definition emptyParams :: PartialParams where
  "emptyParams = \<lparr>p_minProfitabilityBps = None, p_mempoolInterval = None, p_batchUnlockSize = None\<rparr>"

text \<open>\<open>params?.batchUnlockSize\<close>: \<open>undefined\<close> without \<open>params\<close> or without the property.\<close>

definition givenBatchUnlockSize :: "PartialParams option \<Rightarrow> number orUndefined" where
  "givenBatchUnlockSize params =
     (case params of
        None \<Rightarrow> Undefined
      | Some p \<Rightarrow> (case p_batchUnlockSize p of None \<Rightarrow> Undefined | Some v \<Rightarrow> v))"

text \<open>
  The constructor: \<open>params\<close> itself is optional. It throws when \<open>batchUnlockSize\<close> is
  not \<open>undefined\<close> and compares greater than 10 or less than 1, and otherwise assigns
  the parameters.
\<close>

definition newUniversalProcessor :: "PartialParams option \<Rightarrow> error + UniversalProcessorParams" where
  "newUniversalProcessor params =
     (case givenBatchUnlockSize params of
        Defined given \<Rightarrow>
          if jsGreater given (Num 10) \<or> jsLess given (Num 1) then Inl BatchUnlockSizeRange
          else Inr (assignParams defaultParams (case params of None \<Rightarrow> emptyParams | Some p \<Rightarrow> p))
      | Undefined \<Rightarrow>
          Inr (assignParams defaultParams (case params of None \<Rightarrow> emptyParams | Some p \<Rightarrow> p)))"

section \<open>Executor: confirmation ranges\<close>

fun BLOCK_CONFIRMATIONS_HARD_CAPS :: "SupportedChain \<Rightarrow> number" where
  "BLOCK_CONFIRMATIONS_HARD_CAPS Avalanche = Num 15"
| "BLOCK_CONFIRMATIONS_HARD_CAPS Arbitrum = Num 15"
| "BLOCK_CONFIRMATIONS_HARD_CAPS BSC = Num 15"
| "BLOCK_CONFIRMATIONS_HARD_CAPS Ethereum = Num 12"
| "BLOCK_CONFIRMATIONS_HARD_CAPS Polygon = Num 256"
| "BLOCK_CONFIRMATIONS_HARD_CAPS Solana = Num 32"
| "BLOCK_CONFIRMATIONS_HARD_CAPS Fantom = Num 15"

text \<open>An entry of \<open>constraints.requiredConfirmationsThresholds\<close>.\<close>

record Threshold =
  thresholdAmountInUSD :: number
  minBlockConfirmations :: number

text \<open>An entry of \<open>UsdWorthBlockConfirmationConstraints\<close>.\<close>

record ConfirmationRange =
  usdWorthFrom :: number
  usdWorthTo :: number
  rangeMinBlockConfirmations :: number

text \<open>
  The body of the \<open>forEach\<close> over the sorted thresholds, with \<open>prev\<close> the element before
  the current one (\<open>{minBlockConfirmations: 0, thresholdAmountInUSD: 0}\<close> at index 0). The
  first threshold that fails a check throws; otherwise one range is pushed per threshold.
\<close>

fun forEachThreshold :: "SupportedChain \<Rightarrow> Threshold \<Rightarrow> Threshold list \<Rightarrow> error + ConfirmationRange list" where
  "forEachThreshold c prev [] = Inr []"
| "forEachThreshold c prev (t # ts) =
     (if jsLessEq (minBlockConfirmations t) (minBlockConfirmations prev)
      then Inl (ConfirmationsNotGreater (thresholdAmountInUSD t) (minBlockConfirmations t) (minBlockConfirmations prev))
      else if jsLessEq (BLOCK_CONFIRMATIONS_HARD_CAPS c) (minBlockConfirmations t)
      then Inl (ConfirmationsNotLess (thresholdAmountInUSD t) (minBlockConfirmations t) (BLOCK_CONFIRMATIONS_HARD_CAPS c))
      else (case forEachThreshold c t ts of
              Inl e \<Rightarrow> Inl e
            | Inr ranges \<Rightarrow>
                Inr (\<lparr>usdWorthFrom = thresholdAmountInUSD prev,
                      usdWorthTo = thresholdAmountInUSD t,
                      rangeMinBlockConfirmations = minBlockConfirmations t\<rparr> # ranges)))"

definition initialPrev :: Threshold where
  "initialPrev = \<lparr>thresholdAmountInUSD = Num 0, minBlockConfirmations = Num 0\<rparr>"

text \<open>
  \<open>sort((a, b) => a.thresholdAmountInUSD < b.thresholdAmountInUSD ? -1 : 1)\<close>. When
  the USD worths are different numbers the comparator is a consistent order, and every
  engine sorts the thresholds ascending. The comparator never answers 0 and answers 1 both
  ways when two USD worths are equal or one of them is \<open>NaN\<close>; the result is then left to
  the engine. The sort is written here as the insertion, from left to right, of each
  threshold before the first one the comparator puts it before.
\<close>

definition comparator :: "Threshold \<Rightarrow> Threshold \<Rightarrow> int" where
  "comparator a b = (if jsLess (thresholdAmountInUSD a) (thresholdAmountInUSD b) then - 1 else 1)"

fun insertSorted :: "Threshold \<Rightarrow> Threshold list \<Rightarrow> Threshold list" where
  "insertSorted a [] = [a]"
| "insertSorted a (b # bs) = (if comparator a b < 0 then a # b # bs else b # insertSorted a bs)"

definition sortByUsdWorth :: "Threshold list \<Rightarrow> Threshold list" where
  "sortByUsdWorth ts = fold insertSorted ts []"

text \<open>
  \<open>definition.constraints?.requiredConfirmationsThresholds || []\<close> is the list given
  here (empty when the configuration has none).
\<close>

definition getConfirmationRanges :: "SupportedChain \<Rightarrow> Threshold list \<Rightarrow> error + ConfirmationRange list" where
  "getConfirmationRanges c requiredConfirmationsThresholds =
     forEachThreshold c initialPrev (sortByUsdWorth requiredConfirmationsThresholds)"

section \<open>Executor: filters and dispatch\<close>

text \<open>
  An order filter is an asynchronous predicate over the order and the context the executor
  hands it (here the give chain and the take chain): it resolves to a boolean or rejects.
\<close>

type_synonym OrderFilter = "OrderData \<Rightarrow> ChainId \<Rightarrow> ChainId \<Rightarrow> error + bool"

type_synonym OrderFilterInitializer = "ChainId \<Rightarrow> OrderFilter"

text \<open>
  Modelled from the spec: \<open>filters.disableFulfill()\<close>, whose code is not part of the
  sources; the spec gives it as the filter that is always false.
\<close>

definition disableFulfill :: OrderFilterInitializer where
  "disableFulfill c = (\<lambda>ord g t. Inr False)"

text \<open>The part of a \<open>ChainDefinition\<close> that filters and thresholds are built from.\<close>

record ChainDefinition =
  cd_chain :: ChainId
  cd_disabled :: bool
  cd_dstFilters :: "OrderFilterInitializer list"
  cd_srcFilters :: "OrderFilterInitializer list"
  cd_requiredConfirmationsThresholds :: "Threshold list"

record ExecutorSupportedChain =
  chain' :: ChainId
  srcFilters :: "OrderFilter list"
  dstFilters :: "OrderFilter list"
  usdAmountConfirmations :: "ConfirmationRange list"

text \<open>
  One round of the loop of \<open>Executor.init\<close>, as far as filters and thresholds go: the
  destination filters are the chain's own, then \<open>disableFulfill\<close> when the chain is
  disabled, then the global filters \<open>config.filters\<close>, each initialised for this chain;
  the confirmation ranges are validated and a failure aborts the start.
\<close>

definition initChain :: "OrderFilterInitializer list \<Rightarrow> ChainDefinition \<Rightarrow> error + ExecutorSupportedChain" where
  "initChain globalFilters d =
     (let dstFiltersInitializers = cd_dstFilters d @ (if cd_disabled d then [disableFulfill] else []);
          dst = map (\<lambda>f. f (cd_chain d)) (dstFiltersInitializers @ globalFilters);
          src = map (\<lambda>f. f (cd_chain d)) (cd_srcFilters d)
      in case getConfirmationRanges (cd_chain d) (cd_requiredConfirmationsThresholds d) of
           Inl e \<Rightarrow> Inl e
         | Inr ranges \<Rightarrow>
             Inr \<lparr>chain' = cd_chain d, srcFilters = src, dstFilters = dst,
                  usdAmountConfirmations = ranges\<rparr>)"

text \<open>
  \<open>this.chains\<close>: the configured chains by id. The fields \<open>chain\<close> and \<open>chains\<close> are
  written with a prime, the plain names being in use already.
\<close>

type_synonym Chains = "ChainId \<rightharpoonup> ExecutorSupportedChain"

fun initChains :: "OrderFilterInitializer list \<Rightarrow> ChainDefinition list \<Rightarrow> Chains \<Rightarrow> error + Chains" where
  "initChains globalFilters [] cs = Inr cs"
| "initChains globalFilters (d # ds) cs =
     (case initChain globalFilters d of
        Inl e \<Rightarrow> Inl e
      | Inr c \<Rightarrow> initChains globalFilters ds (cs(cd_chain d \<mapsto> c)))"

text \<open>
  A token bucket lists reserve tokens per chain; \<open>findFirstToken\<close> is the first token
  of a chain, if any.
\<close>

type_synonym TokensBucket = "(ChainId \<times> bytes list) list"

definition findFirstToken :: "TokensBucket \<Rightarrow> ChainId \<Rightarrow> bytes option" where
  "findFirstToken bucket c =
     (case map_of bucket c of None \<Rightarrow> None | Some [] \<Rightarrow> None | Some (t # ts) \<Rightarrow> Some t)"

text \<open>
  What a processor receives with an order: the event, the give chain of the context and the
  buckets of the executor (\<open>context.config.buckets\<close>).
\<close>

record IncomingOrderContext =
  orderInfo :: IncomingOrder
  ctx_giveChain :: ChainId
  ctx_buckets :: "TokensBucket list"
  attempts :: "nat option"

record Executor =
  chains' :: Chains
  buckets :: "TokensBucket list"

text \<open>\<open>Promise.all\<close> over settled promises: the values, or the first rejection.\<close>

fun promiseAll :: "(error + 'a) list \<Rightarrow> error + 'a list" where
  "promiseAll [] = Inr []"
| "promiseAll (Inl e # ps) = Inl e"
| "promiseAll (Inr v # ps) = (case promiseAll ps of Inl e \<Rightarrow> Inl e | Inr vs \<Rightarrow> Inr (v # vs))"

text \<open>
  What \<open>executeOrder\<close> does with an event: it throws, returns false (the order is
  dropped) or calls \<open>process\<close> of the take chain's processor and returns true.
\<close>

datatype Dispatch = Dropped | Forwarded ChainId IncomingOrderContext

text \<open>
  The result of \<open>executeOrder\<close>: the answers of the filters it has called, in order,
  and what became of the event.
\<close>

definition executeOrder :: "Executor \<Rightarrow> IncomingOrder \<Rightarrow> (error + bool) list \<times> (error + Dispatch)" where
  "executeOrder ex nextOrderInfo =
     (case order nextOrderInfo of
        None \<Rightarrow> ([], Inl OrderIsUndefined)
      | Some ord \<Rightarrow>
          if orderId nextOrderInfo = [] then ([], Inl OrderIsUndefined)
          else
            (case chains' ex (chainId (take_offer ord)) of
               None \<Rightarrow> ([], Inr Dropped)
             | Some takeChain \<Rightarrow>
                 (case chains' ex (chainId (give ord)) of
                    None \<Rightarrow> ([], Inr Dropped)
                  | Some giveChain \<Rightarrow>
                      (let listOrderFilters = dstFilters takeChain @ srcFilters giveChain;
                           forward = Forwarded (chain' takeChain)
                             \<lparr>orderInfo = nextOrderInfo, ctx_giveChain = chain' giveChain,
                              ctx_buckets = buckets ex, attempts = Some 0\<rparr>
                       in if status nextOrderInfo \<in> {Created, ArchivalCreated} then
                            (let orderFilters =
                                   map (\<lambda>filter. filter ord (chain' giveChain) (chain' takeChain)) listOrderFilters
                             in case promiseAll orderFilters of
                                  Inl e \<Rightarrow> (orderFilters, Inl e)
                                | Inr results \<Rightarrow>
                                    if \<not> list_all (\<lambda>it. it) results then (orderFilters, Inr Dropped)
                                    else (orderFilters, Inr forward))
                          else ([], Inr forward)))))"

section \<open>UniversalProcessor: the serialised pipeline\<close>

text \<open>
  A \<open>Set<string>\<close> keeps its members in insertion order, each once: adding a member
  again changes nothing, \<open>values().next().value\<close> is the earliest member left.
\<close>

definition setAdd :: "'a \<Rightarrow> 'a list \<Rightarrow> 'a list" where
  "setAdd x xs = (if x \<in> set xs then xs else xs @ [x])"

definition setDelete :: "'a \<Rightarrow> 'a list \<Rightarrow> 'a list" where
  "setDelete x xs = removeAll x xs"

definition firstValue :: "'a list \<Rightarrow> 'a option" where
  "firstValue xs = (case xs of [] \<Rightarrow> None | x # rest \<Rightarrow> Some x)"

text \<open>
  \<open>OrderState\<close> of the chain client, as far as the code names its members; the others
  are kept by number.
\<close>

datatype OrderState = NotSet | OrderCreated | OrderFulfilled | OtherState nat

record ExpectedTakeAmount =
  reserveDstToken :: bytes
  requiredReserveDstAmount :: int
  isProfitable :: bool
  reserveToTakeSlippageBps :: "number option"

text \<open>What \<open>createOrderFullfillTx\<close> builds the fulfill transaction from.\<close>

record FulfillTx =
  tx_order :: OrderData
  tx_orderId :: string
  tx_reserveDstToken :: bytes
  tx_reservedAmount :: int
  tx_slippageBps :: "number option"

text \<open>
  The answers of the collaborators during one run of \<open>processOrder\<close>: the two status
  queries of the chain client, each of which answers with an order state (\<open>None\<close> for a
  missing answer or status) or fails; the profitability computation; the balance of the
  fulfill provider; the sending of the fulfill transaction (which may fail, and whose
  failure the code catches); and \<open>waitIsOrderFulfilled\<close> of the base processor (which
  may throw). The profitability computation, the balance query and the building of the
  fulfill transaction are taken to answer.
\<close>

record World =
  getTakeOrderStatus :: "string \<Rightarrow> ChainId \<Rightarrow> error + OrderState option"
  getGiveOrderStatus :: "string \<Rightarrow> ChainId \<Rightarrow> error + OrderState option"
  calculateExpectedTakeAmount :: "OrderData \<Rightarrow> number orUndefined \<Rightarrow> number orUndefined option \<Rightarrow> ExpectedTakeAmount"
  getBalance :: "bytes \<Rightarrow> int"
  sendTransaction :: "FulfillTx \<Rightarrow> error + string"
  waitIsOrderFulfilled :: "string \<Rightarrow> OrderData \<Rightarrow> error + unit"

text \<open>
  The state of one \<open>UniversalProcessor\<close>. The mempool service and the batch unlocker are
  kept as what they have been handed (see \<open>mempoolAddOrder\<close>, \<open>unlockOrder\<close>). The
  last two fields are observers added for the proofs: the orders whose \<open>processOrder\<close>
  has been invoked and has not settled yet, and the ids of all invocations so far.
\<close>

record UniversalProcessor =
  params :: UniversalProcessorParams
  priorityQueue :: "string list"
  queue :: "string list"
  incomingOrdersMap :: "string \<rightharpoonup> IncomingOrderContext"
  isLocked :: bool
  mempool :: "string \<rightharpoonup> IncomingOrderContext"
  unlockRequests :: "(string \<times> OrderData option) list"
  inFlight :: "IncomingOrderContext list"
  started :: "string list"

definition initialProcessor :: "UniversalProcessorParams \<Rightarrow> UniversalProcessor" where
  "initialProcessor ps =
     \<lparr>params = ps, priorityQueue = [], queue = [], incomingOrdersMap = Map.empty,
      isLocked = False, mempool = Map.empty, unlockRequests = [], inFlight = [], started = []\<rparr>"

text \<open>
  Modelled from the spec: \<open>MempoolService.addOrder\<close> and \<open>delete\<close>, whose code is not
  part of the sources; the spec has the service store the event under its order id.
\<close>

definition mempoolAddOrder :: "IncomingOrderContext \<Rightarrow> UniversalProcessor \<Rightarrow> UniversalProcessor" where
  "mempoolAddOrder p s = s\<lparr>mempool := (mempool s)(orderId (orderInfo p) \<mapsto> p)\<rparr>"

definition mempoolDelete :: "string \<Rightarrow> UniversalProcessor \<Rightarrow> UniversalProcessor" where
  "mempoolDelete i s = s\<lparr>mempool := (mempool s)(i := None)\<rparr>"

text \<open>
  Modelled from the spec: \<open>BatchUnlocker.unlockOrder\<close>, whose code is not part of the
  sources; kept here is the order it is handed.
\<close>

definition unlockOrder :: "string \<Rightarrow> OrderData option \<Rightarrow> UniversalProcessor \<Rightarrow> UniversalProcessor" where
  "unlockOrder i ord s = s\<lparr>unlockRequests := unlockRequests s @ [(i, ord)]\<rparr>"

definition createOrderFullfillTx :: "string \<Rightarrow> OrderData \<Rightarrow> bytes \<Rightarrow> int \<Rightarrow> number option \<Rightarrow> FulfillTx" where
  "createOrderFullfillTx i ord token reservedAmount slippage =
     \<lparr>tx_order = ord, tx_orderId = i, tx_reserveDstToken = token,
      tx_reservedAmount = reservedAmount, tx_slippageBps = slippage\<rparr>"

text \<open>\<open>context.config.buckets.find(...)\<close>: the first bucket with a token on both chains.\<close>

definition findBucket :: "TokensBucket list \<Rightarrow> OrderData \<Rightarrow> TokensBucket option" where
  "findBucket bs ord =
     find (\<lambda>bucket. findFirstToken bucket (chainId (give ord)) \<noteq> None \<and>
                     findFirstToken bucket (chainId (take_offer ord)) \<noteq> None) bs"

text \<open>
  \<open>processOrder\<close>, first part: the checks made before the profitability computation.
  Each failing check throws, and so does a status query that fails: the code awaits it
  without a handler. When all checks pass the order payload is at hand.
\<close>

definition processOrderChecks :: "World \<Rightarrow> IncomingOrderContext \<Rightarrow> error + OrderData" where
  "processOrderChecks w p =
     (case order (orderInfo p) of
        None \<Rightarrow> Inl OrderIsEmpty
      | Some ord \<Rightarrow>
          if orderId (orderInfo p) = [] then Inl OrderIsEmpty
          else if findBucket (ctx_buckets p) ord = None then Inl NoTokenBucket
          else
            (case getTakeOrderStatus w (orderId (orderInfo p)) (chainId (take_offer ord)) of
               Inl rejection \<Rightarrow> Inl rejection
             | Inr takeOrderStatus \<Rightarrow>
                 if takeOrderStatus \<noteq> Some NotSet \<and> takeOrderStatus \<noteq> None then Inl OrderIsFulfilled
                 else
                   (case getGiveOrderStatus w (orderId (orderInfo p)) (chainId (give ord)) of
                      Inl rejection \<Rightarrow> Inl rejection
                    | Inr giveOrderStatus \<Rightarrow>
                        if giveOrderStatus \<noteq> Some OrderCreated then Inl OrderIsNotCreated
                        else Inr ord)))"

text \<open>
  \<open>processOrder\<close>, second part, for an order that passed the checks: the profitability
  gate, the balance gate, the fulfill transaction, the wait and the unlock.
\<close>

definition processOrderFulfill :: "World \<Rightarrow> IncomingOrderContext \<Rightarrow> OrderData \<Rightarrow> UniversalProcessor \<Rightarrow> (error + unit) \<times> UniversalProcessor" where
  "processOrderFulfill w p ord s =
     (let batchSize =
            (if chainId (give ord) = Solana \<or> chainId (take_offer ord) = Solana
             then None else Some (batchUnlockSize (params s)));
          e = calculateExpectedTakeAmount w ord (minProfitabilityBps (params s)) batchSize
      in if \<not> isProfitable e
         then (Inr (), mempoolAddOrder (p\<lparr>attempts := None\<rparr>) s)
         else
           (let accountReserveBalance = getBalance w (reserveDstToken e) in
            if accountReserveBalance < requiredReserveDstAmount e
            then (Inr (), mempoolAddOrder (p\<lparr>attempts := None\<rparr>) s)
            else
              (let fulfillTx =
                     createOrderFullfillTx (orderId (orderInfo p)) ord (reserveDstToken e)
                       (requiredReserveDstAmount e) (reserveToTakeSlippageBps e)
               in case sendTransaction w fulfillTx of
                    Inl failure \<Rightarrow> (Inr (), mempoolAddOrder (p\<lparr>attempts := None\<rparr>) s)
                  | Inr txFulfill \<Rightarrow>
                      (case waitIsOrderFulfilled w (orderId (orderInfo p)) ord of
                         Inl notObserved \<Rightarrow> (Inl notObserved, s)
                       | Inr u \<Rightarrow> (Inr (), unlockOrder (orderId (orderInfo p)) (Some ord) s)))))"

text \<open>
  \<open>processOrder\<close>: the result is \<open>Inl\<close> when it throws and \<open>Inr ()\<close> when it returns;
  the state it leaves differs in the mempool and in the unlocker only.
\<close>

definition processOrder :: "World \<Rightarrow> IncomingOrderContext \<Rightarrow> UniversalProcessor \<Rightarrow> (error + unit) \<times> UniversalProcessor" where
  "processOrder w p s =
     (case processOrderChecks w p of
        Inl e \<Rightarrow> (Inl e, s)
      | Inr ord \<Rightarrow> processOrderFulfill w p ord s)"

text \<open>\<open>priorityQueue.values().next().value || queue.values().next().value\<close>.\<close>

definition nextOrderId :: "UniversalProcessor \<Rightarrow> string option" where
  "nextOrderId s =
     (case firstValue (priorityQueue s) of
        None \<Rightarrow> firstValue (queue s)
      | Some i \<Rightarrow> if i = [] then firstValue (queue s) else Some i)"

definition pickNextOrder :: "UniversalProcessor \<Rightarrow> IncomingOrderContext option \<times> UniversalProcessor" where
  "pickNextOrder s =
     (case nextOrderId s of
        None \<Rightarrow> (None, s)
      | Some i \<Rightarrow>
          if i = [] then (None, s)
          else (incomingOrdersMap s i,
                s\<lparr>priorityQueue := setDelete i (priorityQueue s),
                  queue := setDelete i (queue s),
                  incomingOrdersMap := (incomingOrdersMap s)(i := None)\<rparr>))"

text \<open>
  \<open>tryProcess\<close> is asynchronous and waits once, for \<open>processOrder\<close>. It is modelled by
  its two synchronous halves. \<open>tryProcess\<close> below is the half before the wait: a locked
  processor postpones the order to a queue; an idle one takes the lock and invokes
  \<open>processOrder\<close>.
\<close>

definition tryProcess :: "IncomingOrderContext \<Rightarrow> UniversalProcessor \<Rightarrow> error + UniversalProcessor" where
  "tryProcess p s =
     (if isLocked s then
        (case status (orderInfo p) of
           ArchivalCreated \<Rightarrow>
             Inr (s\<lparr>queue := setAdd (orderId (orderInfo p)) (queue s),
                    incomingOrdersMap := (incomingOrdersMap s)(orderId (orderInfo p) \<mapsto> p)\<rparr>)
         | Created \<Rightarrow>
             Inr (s\<lparr>priorityQueue := setAdd (orderId (orderInfo p)) (priorityQueue s),
                    incomingOrdersMap := (incomingOrdersMap s)(orderId (orderInfo p) \<mapsto> p)\<rparr>)
         | other \<Rightarrow> Inl (UnexpectedOrderStatus other))
      else
        Inr (s\<lparr>isLocked := True,
               inFlight := inFlight s @ [p],
               started := started s @ [orderId (orderInfo p)]\<rparr>))"

text \<open>
  The half after the wait, run when \<open>processOrder\<close> of \<open>p\<close> settles: its effects on
  the mempool and the unlocker are in place (nothing else runs between them and this
  continuation), its error, if any, is caught and logged; the lock is released and the
  next order, if one is queued, goes through \<open>tryProcess\<close>, whose own result is not
  awaited.
\<close>

definition tryProcessResume :: "World \<Rightarrow> IncomingOrderContext \<Rightarrow> UniversalProcessor \<Rightarrow> UniversalProcessor" where
  "tryProcessResume w p s =
     (let s1 = snd (processOrder w p s);
          s2 = s1\<lparr>isLocked := False, inFlight := remove1 p (inFlight s1)\<rparr>;
          picked = pickNextOrder s2
      in case fst picked of
           None \<Rightarrow> snd picked
         | Some nextOrder \<Rightarrow>
             (case tryProcess nextOrder (snd picked) of
                Inl e \<Rightarrow> snd picked
              | Inr s3 \<Rightarrow> s3))"

text \<open>\<open>process\<close>, the entry the executor and the mempool timer call, up to its first wait.\<close>

definition process :: "IncomingOrderContext \<Rightarrow> UniversalProcessor \<Rightarrow> error + UniversalProcessor" where
  "process p s =
     (let i = orderId (orderInfo p) in
      case status (orderInfo p) of
        ArchivalCreated \<Rightarrow> tryProcess p s
      | Created \<Rightarrow> tryProcess p s
      | ArchivalFulfilled \<Rightarrow> Inr (unlockOrder i (order (orderInfo p)) s)
      | Cancelled \<Rightarrow>
          Inr (mempoolDelete i
                 (s\<lparr>queue := setDelete i (queue s),
                    priorityQueue := setDelete i (priorityQueue s),
                    incomingOrdersMap := (incomingOrdersMap s)(i := None)\<rparr>))
      | Fulfilled \<Rightarrow>
          Inr (unlockOrder i (order (orderInfo p))
                 (mempoolDelete i
                    (s\<lparr>queue := setDelete i (queue s),
                       priorityQueue := setDelete i (priorityQueue s),
                       incomingOrdersMap := (incomingOrdersMap s)(i := None)\<rparr>)))
      | Other \<Rightarrow> Inr s)"

text \<open>
  What can happen to a processor: \<open>process\<close> is called with an event, or the
  \<open>processOrder\<close> of an order in flight settles against some state of the world.
\<close>

datatype Event = Arrive IncomingOrderContext | Settle World IncomingOrderContext

definition step :: "Event \<Rightarrow> UniversalProcessor \<Rightarrow> UniversalProcessor option" where
  "step ev s =
     (case ev of
        Arrive p \<Rightarrow> (case process p s of Inl e \<Rightarrow> Some s | Inr s' \<Rightarrow> Some s')
      | Settle w p \<Rightarrow> if p \<in> set (inFlight s) then Some (tryProcessResume w p s) else None)"

fun run :: "Event list \<Rightarrow> UniversalProcessor \<Rightarrow> UniversalProcessor option" where
  "run [] s = Some s"
| "run (ev # evs) s = (case step ev s of None \<Rightarrow> None | Some s' \<Rightarrow> run evs s')"

text \<open>
  Draining: with no further event arriving, the order in flight settles (each time
  against the next world of the list) until the processor is idle or the list is used up.
\<close>

fun drain :: "World list \<Rightarrow> UniversalProcessor \<Rightarrow> UniversalProcessor" where
  "drain [] s = s"
| "drain (w # ws) s =
     (case inFlight s of
        [] \<Rightarrow> s
      | p # rest \<Rightarrow> drain ws (tryProcessResume w p s))"

text \<open>
  The serial discipline, on the observers: a locked processor has exactly one order in
  flight, an idle one has none.
\<close>

definition serial :: "UniversalProcessor \<Rightarrow> bool" where
  "serial s = (if isLocked s then length (inFlight s) = 1 else inFlight s = [])"

text \<open>
  The events the executor forwards carry an order id (it refuses the others), and so do
  the orders the mempool hands back.
\<close>

definition arrivalsHaveIds :: "Event list \<Rightarrow> bool" where
  "arrivalsHaveIds evs =
     list_all (\<lambda>ev. case ev of Arrive p \<Rightarrow> orderId (orderInfo p) \<noteq> [] | Settle w p \<Rightarrow> True) evs"

text \<open>
  The queues hold each id once, no empty id, and every queued id has its context, filed
  under its own id, in \<open>incomingOrdersMap\<close>.
\<close>

definition queuesWellFormed :: "UniversalProcessor \<Rightarrow> bool" where
  "queuesWellFormed s =
     (distinct (priorityQueue s) \<and> distinct (queue s)
      \<and> [] \<notin> set (priorityQueue s) \<and> [] \<notin> set (queue s)
      \<and> (\<forall>i \<in> set (priorityQueue s) \<union> set (queue s).
            \<exists>p. incomingOrdersMap s i = Some p \<and> orderId (orderInfo p) = i))"

section \<open>StrictProcessor\<close>




text \<open>The calls \<open>process\<close> makes to its collaborators, in the order it makes them.\<close>

datatype StrictCall =
    GetPrice ChainId
  | GetTakerFlowCost
  | GetAmountToSend
  | FulfillOrder string
  | SendFulfillTx
  | GetTakeOrderStatus
  | SendUnlockOrder string
  | SendUnlockTx




text \<open>
  The loop that waits for the fulfillment on Solana. \<open>iteration\<close> counts up from 0 and the
  loop throws when it finds it equal to \<open>limit = 10\<close>; \<open>left\<close> is \<open>limit - iteration\<close>.
  A query that fails ends the loop with its error.
\<close>

fun waitFulfilled :: "(nat \<Rightarrow> error + OrderState option) \<Rightarrow> nat \<Rightarrow> nat \<Rightarrow> OrderState option \<Rightarrow> StrictCall list \<times> (error + unit)" where
  "waitFulfilled poll iteration 0 state =
     (if state = Some OrderFulfilled then ([], Inr ()) else ([], Inl RetriesLimitReached))"
| "waitFulfilled poll iteration (Suc left) state =
     (if state = Some OrderFulfilled then ([], Inr ())
      else (case poll (Suc iteration) of
              Inl e \<Rightarrow> ([GetTakeOrderStatus], Inl e)
            | Inr answer \<Rightarrow>
                (let r = waitFulfilled poll (Suc iteration) left answer
                 in (GetTakeOrderStatus # fst r, snd r))))"



section \<open>Concrete configurations and events\<close>

text \<open>
  The values the closed examples below are computed on: the USDC order of the
  specification's first scenario (Arbitrum to Polygon; addresses abbreviated to their
  first bytes), a bucket that covers both chains, and an executor with both chains
  configured.
\<close>

definition usdcArbitrum :: bytes where
  "usdcArbitrum = [0xff, 0x97, 0x0a, 0x61]"

definition usdcPolygon :: bytes where
  "usdcPolygon = [0x27, 0x91, 0xbc, 0xa1]"

definition usdcBucket :: TokensBucket where
  "usdcBucket = [(Arbitrum, [usdcArbitrum]), (Polygon, [usdcPolygon])]"

definition orderS1 :: OrderData where
  "orderS1 = \<lparr>give = \<lparr>chainId = Arbitrum, tokenAddress = usdcArbitrum, amount = 100\<rparr>,
              take_offer = \<lparr>chainId = Polygon, tokenAddress = usdcPolygon, amount = 99\<rparr>\<rparr>"

definition eventS1 :: IncomingOrder where
  "eventS1 = \<lparr>orderId = ''O1'', status = Created, order = Some orderS1\<rparr>"

definition acceptAll :: OrderFilter where
  "acceptAll = (\<lambda>ord g t. Inr True)"

definition executorS1 :: Executor where
  "executorS1 =
     \<lparr>chains' = [Arbitrum \<mapsto> \<lparr>chain' = Arbitrum, srcFilters = [acceptAll], dstFilters = [],
                                usdAmountConfirmations = []\<rparr>,
                  Polygon \<mapsto> \<lparr>chain' = Polygon, srcFilters = [], dstFilters = [acceptAll],
                               usdAmountConfirmations = []\<rparr>],
      buckets = [usdcBucket]\<rparr>"

text \<open>The same executor with Polygon disabled: \<open>disableFulfill\<close> is among its filters.\<close>

definition executorS4 :: Executor where
  "executorS4 =
     \<lparr>chains' = [Arbitrum \<mapsto> \<lparr>chain' = Arbitrum, srcFilters = [acceptAll], dstFilters = [],
                                usdAmountConfirmations = []\<rparr>,
                  Polygon \<mapsto> \<lparr>chain' = Polygon, srcFilters = [],
                               dstFilters = [acceptAll, disableFulfill Polygon],
                               usdAmountConfirmations = []\<rparr>],
      buckets = [usdcBucket]\<rparr>"

definition paramsS1 :: IncomingOrderContext where
  "paramsS1 = \<lparr>orderInfo = eventS1, ctx_giveChain = Arbitrum, ctx_buckets = [usdcBucket],
               attempts = Some 0\<rparr>"

text \<open>
  A world in which the order is created on the source, not taken on the destination,
  profitable and funded, and every transaction goes through.
\<close>

definition worldS1 :: World where
  "worldS1 =
     \<lparr>getTakeOrderStatus = (\<lambda>i c. Inr (Some NotSet)),
      getGiveOrderStatus = (\<lambda>i c. Inr (Some OrderCreated)),
      calculateExpectedTakeAmount =
        (\<lambda>ord bps batch. \<lparr>reserveDstToken = usdcPolygon, requiredReserveDstAmount = 99,
                           isProfitable = True, reserveToTakeSlippageBps = None\<rparr>),
      getBalance = (\<lambda>token. 1000),
      sendTransaction = (\<lambda>tx. Inr ''0xf1''),
      waitIsOrderFulfilled = (\<lambda>i ord. Inr ())\<rparr>"

text \<open>The same world with the order not profitable.\<close>

definition worldS3 :: World where
  "worldS3 =
     worldS1\<lparr>calculateExpectedTakeAmount :=
        (\<lambda>ord bps batch. \<lparr>reserveDstToken = usdcPolygon, requiredReserveDstAmount = 99,
                           isProfitable = False, reserveToTakeSlippageBps = None\<rparr>)\<rparr>"

text \<open>The same world with a chain client whose query for the take status fails.\<close>

definition worldS5 :: World where
  "worldS5 = worldS1\<lparr>getTakeOrderStatus := (\<lambda>i c. Inl (Rejected ''request failed''))\<rparr>"

definition processorS1 :: UniversalProcessor where
  "processorS1 = initialProcessor defaultParams"

text \<open>An event for the same order under another id and status.\<close>

definition arrival :: "string \<Rightarrow> OrderInfoStatus \<Rightarrow> IncomingOrderContext" where
  "arrival i st = paramsS1\<lparr>orderInfo := \<lparr>orderId = i, status = st, order = Some orderS1\<rparr>\<rparr>"

text \<open>
  The processor while it works on the first scenario's order, then with the order
  \<open>O2\<close> postponed as \<open>Created\<close>, then with \<open>O2\<close> postponed as \<open>ArchivalCreated\<close> too.
\<close>

definition busyS1 :: UniversalProcessor where
  "busyS1 = processorS1\<lparr>isLocked := True, inFlight := [paramsS1], started := [''O1'']\<rparr>"

definition onceS8 :: UniversalProcessor where
  "onceS8 = busyS1\<lparr>priorityQueue := [''O2''],
                    incomingOrdersMap := [''O2'' \<mapsto> arrival ''O2'' Created]\<rparr>"


text \<open>
  The busy processor after the events \<open>C1, A1, C2, A2\<close> of the specification's priority
  scenario have arrived.
\<close>

definition queuedS2 :: UniversalProcessor where
  "queuedS2 =
     busyS1\<lparr>priorityQueue := [''C1'', ''C2''], queue := [''A1'', ''A2''],
            incomingOrdersMap :=
              [''C1'' \<mapsto> arrival ''C1'' Created, ''A1'' \<mapsto> arrival ''A1'' ArchivalCreated,
               ''C2'' \<mapsto> arrival ''C2'' Created, ''A2'' \<mapsto> arrival ''A2'' ArchivalCreated]\<rparr>"




section \<open>Construction of the universal processor\<close>

text \<open>
  The constructor throws exactly when \<open>batchUnlockSize\<close> is given, is not \<open>undefined\<close>,
  and compares greater than 10 or less than 1; the error is the same in both cases.
\<close>

lemma newUniversalProcessor_throws:
  "((\<exists>e. newUniversalProcessor ps = Inl e) \<longleftrightarrow>
      (\<exists>v. givenBatchUnlockSize ps = Defined v \<and> (jsGreater v (Num 10) \<or> jsLess v (Num 1))))
   \<and> (\<forall>e. newUniversalProcessor ps = Inl e \<longrightarrow> e = BatchUnlockSizeRange)"
  by (cases "givenBatchUnlockSize ps") (auto simp: newUniversalProcessor_def)

text \<open>
  On the finite numbers and the infinities the two comparisons refuse exactly what lies
  outside the interval from 1 to 10.
\<close>

lemma outside_interval:
  "(jsGreater (Num r) (Num 10) \<or> jsLess (Num r) (Num 1)) \<longleftrightarrow> r \<notin> {1..10}"
  "jsGreater PosInfinity (Num 10) \<or> jsLess PosInfinity (Num 1)"
  "jsGreater NegInfinity (Num 10) \<or> jsLess NegInfinity (Num 1)"
  by (auto simp: jsGreater_def)

text \<open>
  A constructed processor holds every property the configuration has, and the default
  of every property it does not have: 4, 60 and 10.
\<close>

lemma newUniversalProcessor_assigns:
  assumes "newUniversalProcessor ps = Inr r"
  shows "r = assignParams defaultParams (case ps of None \<Rightarrow> emptyParams | Some p \<Rightarrow> p)"
  using assms
  by (cases "givenBatchUnlockSize ps") (auto simp: newUniversalProcessor_def split: if_splits)

lemma newUniversalProcessor_defaults:
  "newUniversalProcessor None = Inr defaultParams"
  "newUniversalProcessor (Some emptyParams) = Inr defaultParams"
  "defaultParams = \<lparr>minProfitabilityBps = Defined (Num 4), mempoolInterval = Defined (Num 60),
                    batchUnlockSize = Defined (Num 10)\<rparr>"
  by (simp_all add: newUniversalProcessor_def givenBatchUnlockSize_def assignParams_def
        emptyParams_def defaultParams_def)

text \<open>
  Claim C7. Constructing a \<open>UniversalProcessor\<close> with a \<open>batchUnlockSize\<close> outside the
  interval from 1 to 10 should throw, and a parameter that is not given should keep its
  default, 10 for \<open>batchUnlockSize\<close>. The constructor misses two values. \<open>NaN\<close> lies
  outside the interval, but compares neither greater than 10 nor less than 1: the
  constructor accepts it and the processor holds \<open>NaN\<close> as its \<open>batchUnlockSize\<close>. A
  \<open>batchUnlockSize\<close> given as \<open>undefined\<close> passes the check as a parameter that is not
  given, and \<open>Object.assign\<close> then replaces the default 10 by \<open>undefined\<close>. The sizes 11
  and 0 are refused, and without parameters the defaults are 4, 60 and 10.
\<close>

theorem newUniversalProcessor_accepts_NaN:
  "newUniversalProcessor (Some (emptyParams\<lparr>p_batchUnlockSize := Some (Defined NaN)\<rparr>))
     = Inr (defaultParams\<lparr>batchUnlockSize := Defined NaN\<rparr>)
   \<and> newUniversalProcessor (Some (emptyParams\<lparr>p_batchUnlockSize := Some Undefined\<rparr>))
     = Inr (defaultParams\<lparr>batchUnlockSize := Undefined\<rparr>)
   \<and> newUniversalProcessor (Some (emptyParams\<lparr>p_batchUnlockSize := Some (Defined (Num 11))\<rparr>))
     = Inl BatchUnlockSizeRange
   \<and> newUniversalProcessor (Some (emptyParams\<lparr>p_batchUnlockSize := Some (Defined (Num 0))\<rparr>))
     = Inl BatchUnlockSizeRange
   \<and> newUniversalProcessor None
     = Inr \<lparr>minProfitabilityBps = Defined (Num 4), mempoolInterval = Defined (Num 60),
            batchUnlockSize = Defined (Num 10)\<rparr>"
  by (simp add: newUniversalProcessor_def givenBatchUnlockSize_def assignParams_def
        emptyParams_def defaultParams_def jsGreater_def)

section \<open>Validation of the confirmation thresholds\<close>

text \<open>
  The loop over the thresholds succeeds exactly when no threshold compares less than or
  equal to the one before it (\<open>prev\<close> before the first), and the hard cap of the chain
  compares less than or equal to none of them.
\<close>

lemma forEachThreshold_Inr_iff:
  "(\<exists>rs. forEachThreshold c prev ts = Inr rs) \<longleftrightarrow>
     (\<forall>i < length ts.
        \<not> jsLessEq (minBlockConfirmations (ts ! i))
                    (minBlockConfirmations (if i = 0 then prev else ts ! (i - 1)))
        \<and> \<not> jsLessEq (BLOCK_CONFIRMATIONS_HARD_CAPS c) (minBlockConfirmations (ts ! i)))"
proof (induction ts arbitrary: prev)
  case Nil
  then show ?case by simp
next
  case (Cons t ts)
  let ?Q = "\<lambda>prev' us i. \<not> jsLessEq (minBlockConfirmations (us ! i))
                    (minBlockConfirmations (if i = 0 then prev' else us ! (i - 1)))
        \<and> \<not> jsLessEq (BLOCK_CONFIRMATIONS_HARD_CAPS c) (minBlockConfirmations (us ! i))"
  have tail: "?Q prev (t # ts) (Suc i) = ?Q t ts i" for i
    by (simp add: nth_Cons')
  have "(\<forall>i<length (t # ts). ?Q prev (t # ts) i) \<longleftrightarrow>
        ?Q prev (t # ts) 0 \<and> (\<forall>i<length ts. ?Q prev (t # ts) (Suc i))"
    by (simp only: length_Cons All_less_Suc2)
  also have "\<dots> \<longleftrightarrow> ?Q prev (t # ts) 0 \<and> (\<forall>i<length ts. ?Q t ts i)"
    by (simp only: tail)
  also have "\<dots> \<longleftrightarrow> (\<exists>rs. forEachThreshold c prev (t # ts) = Inr rs)"
    using Cons.IH [of t, symmetric] by (auto split: sum.splits)
  finally show ?case by (rule sym)
qed

text \<open>
  Between numbers, \<open>a <= b\<close> is false exactly when \<open>a > b\<close>; with \<open>NaN\<close> on either
  side both are false.
\<close>

lemma jsLessEq_numbers:
  "a \<noteq> NaN \<Longrightarrow> b \<noteq> NaN \<Longrightarrow> (\<not> jsLessEq a b) \<longleftrightarrow> jsGreater a b"
  "\<not> jsLessEq NaN b" "\<not> jsLessEq a NaN" "\<not> jsGreater NaN b" "\<not> jsGreater a NaN"
  "\<not> jsLess NaN b" "\<not> jsLess a NaN"
  by (cases a; cases b; simp add: jsGreater_def)+

text \<open>
  Among the values that are not \<open>NaN\<close> the comparison \<open>a < b\<close> is a strict linear
  order, with the infinities at its ends.
\<close>

lemma jsLess_order:
  "jsLess a b \<Longrightarrow> jsLess b c \<Longrightarrow> jsLess a c"
  "jsLess a b \<Longrightarrow> \<not> jsLess b a"
  "a \<noteq> NaN \<Longrightarrow> b \<noteq> NaN \<Longrightarrow> c \<noteq> NaN \<Longrightarrow> \<not> jsLess b a \<Longrightarrow> \<not> jsLess c b \<Longrightarrow> \<not> jsLess c a"
  "a \<noteq> NaN \<Longrightarrow> b \<noteq> NaN \<Longrightarrow> (\<not> jsLessEq a b) \<longleftrightarrow> jsLess b a"
  by (cases a; cases b; cases c; simp)+

lemma hard_cap_number: "BLOCK_CONFIRMATIONS_HARD_CAPS c \<noteq> NaN"
  by (cases c) simp_all

text \<open>
  The sort keeps the thresholds, and puts them in ascending order of USD worth when none
  of the USD worths is \<open>NaN\<close>.
\<close>

lemma insertSorted_set: "set (insertSorted a bs) = insert a (set bs)"
  by (induction bs) auto

lemma insertSorted_length: "length (insertSorted a bs) = Suc (length bs)"
  by (induction bs) auto

lemma insertSorted_sorted:
  assumes "sorted_wrt (\<lambda>x y. \<not> jsLess (thresholdAmountInUSD y) (thresholdAmountInUSD x)) bs"
    and "thresholdAmountInUSD a \<noteq> NaN" "\<forall>b \<in> set bs. thresholdAmountInUSD b \<noteq> NaN"
  shows "sorted_wrt (\<lambda>x y. \<not> jsLess (thresholdAmountInUSD y) (thresholdAmountInUSD x)) (insertSorted a bs)"
  using assms
proof (induction bs)
  case Nil
  then show ?case by simp
next
  case (Cons b bs)
  show ?case
  proof (cases "jsLess (thresholdAmountInUSD a) (thresholdAmountInUSD b)")
    case True
    have "\<not> jsLess (thresholdAmountInUSD y) (thresholdAmountInUSD a)" if "y \<in> set (b # bs)" for y
    proof (cases "y = b")
      case True
      then show ?thesis using \<open>jsLess (thresholdAmountInUSD a) (thresholdAmountInUSD b)\<close>
        by (simp add: jsLess_order(2))
    next
      case False
      then have y: "y \<in> set bs" using that by simp
      then have "\<not> jsLess (thresholdAmountInUSD y) (thresholdAmountInUSD b)"
        using Cons.prems(1) by simp
      moreover have "\<not> jsLess (thresholdAmountInUSD b) (thresholdAmountInUSD a)"
        using True by (simp add: jsLess_order(2))
      ultimately show ?thesis
        using jsLess_order(3) [of "thresholdAmountInUSD a" "thresholdAmountInUSD b" "thresholdAmountInUSD y"]
          Cons.prems(2,3) y by simp
    qed
    then show ?thesis using True Cons.prems(1) by (simp add: comparator_def)
  next
    case False
    have tail: "sorted_wrt (\<lambda>x y. \<not> jsLess (thresholdAmountInUSD y) (thresholdAmountInUSD x)) (insertSorted a bs)"
      using Cons.IH Cons.prems by simp
    have "\<forall>y \<in> set (insertSorted a bs). \<not> jsLess (thresholdAmountInUSD y) (thresholdAmountInUSD b)"
      using False Cons.prems(1) by (simp add: insertSorted_set)
    then show ?thesis using False tail by (simp add: comparator_def)
  qed
qed

lemma sortByUsdWorth_sorted:
  assumes "\<forall>t \<in> set ts. thresholdAmountInUSD t \<noteq> NaN"
  shows "set (sortByUsdWorth ts) = set ts" "length (sortByUsdWorth ts) = length ts"
    "sorted_wrt (\<lambda>x y. \<not> jsLess (thresholdAmountInUSD y) (thresholdAmountInUSD x)) (sortByUsdWorth ts)"
proof -
  have s: "set (fold insertSorted ts acc) = set ts \<union> set acc" for acc
    by (induction ts arbitrary: acc) (auto simp: insertSorted_set)
  have l: "length (fold insertSorted ts acc) = length ts + length acc" for acc
    by (induction ts arbitrary: acc) (auto simp: insertSorted_length)
  have o: "sorted_wrt (\<lambda>x y. \<not> jsLess (thresholdAmountInUSD y) (thresholdAmountInUSD x)) (fold insertSorted ts acc)"
    if "sorted_wrt (\<lambda>x y. \<not> jsLess (thresholdAmountInUSD y) (thresholdAmountInUSD x)) acc"
       "\<forall>t \<in> set acc. thresholdAmountInUSD t \<noteq> NaN" for acc
    using that assms
  proof (induction ts arbitrary: acc)
    case Nil
    then show ?case by simp
  next
    case (Cons t ts)
    have 1: "sorted_wrt (\<lambda>x y. \<not> jsLess (thresholdAmountInUSD y) (thresholdAmountInUSD x)) (insertSorted t acc)"
      using Cons.prems by (intro insertSorted_sorted) simp_all
    have 2: "\<forall>t \<in> set (insertSorted t acc). thresholdAmountInUSD t \<noteq> NaN"
      using Cons.prems by (simp add: insertSorted_set)
    show ?case using Cons.IH [OF 1 2] Cons.prems(3) by simp
  qed
  show "set (sortByUsdWorth ts) = set ts" by (simp add: sortByUsdWorth_def s)
  show "length (sortByUsdWorth ts) = length ts" by (simp add: sortByUsdWorth_def l)
  show "sorted_wrt (\<lambda>x y. \<not> jsLess (thresholdAmountInUSD y) (thresholdAmountInUSD x)) (sortByUsdWorth ts)"
    unfolding sortByUsdWorth_def by (rule o) simp_all
qed

text \<open>
  When the loop accepts thresholds none of whose block confirmations is \<open>NaN\<close>, the block
  confirmations increase strictly along the list and stay below the hard cap.
\<close>

lemma forEachThreshold_ascending:
  assumes "forEachThreshold c prev ts = Inr rs"
    and "minBlockConfirmations prev \<noteq> NaN" "\<forall>t \<in> set ts. minBlockConfirmations t \<noteq> NaN"
  shows "sorted_wrt (\<lambda>x y. jsLess (minBlockConfirmations x) (minBlockConfirmations y)) (prev # ts)
       \<and> (\<forall>t \<in> set ts. jsLess (minBlockConfirmations t) (BLOCK_CONFIRMATIONS_HARD_CAPS c))"
  using assms
proof (induction ts arbitrary: prev rs)
  case Nil
  then show ?case by simp
next
  case (Cons t ts)
  from Cons.prems(1) obtain rs' where
    a: "\<not> jsLessEq (minBlockConfirmations t) (minBlockConfirmations prev)"
      "\<not> jsLessEq (BLOCK_CONFIRMATIONS_HARD_CAPS c) (minBlockConfirmations t)"
      "forEachThreshold c t ts = Inr rs'"
    by (auto split: if_splits sum.splits)
  have n: "minBlockConfirmations t \<noteq> NaN" using Cons.prems(3) by simp
  have lt: "jsLess (minBlockConfirmations prev) (minBlockConfirmations t)"
    using a(1) n Cons.prems(2) by (simp add: jsLess_order(4))
  have cap: "jsLess (minBlockConfirmations t) (BLOCK_CONFIRMATIONS_HARD_CAPS c)"
    using a(2) n hard_cap_number by (simp add: jsLess_order(4))
  have ih: "sorted_wrt (\<lambda>x y. jsLess (minBlockConfirmations x) (minBlockConfirmations y)) (t # ts)
       \<and> (\<forall>t \<in> set ts. jsLess (minBlockConfirmations t) (BLOCK_CONFIRMATIONS_HARD_CAPS c))"
    using Cons.IH [OF a(3) n] Cons.prems(3) by simp
  have "\<forall>y \<in> set (t # ts). jsLess (minBlockConfirmations prev) (minBlockConfirmations y)"
    using ih lt jsLess_order(1) by auto
  then show ?case using ih cap by simp
qed

text \<open>
  So the validation does what is asked of it on every configuration without \<open>NaN\<close>: two
  accepted thresholds with \<open>t1.usd < t2.usd\<close> have
  \<open>t1.minBlockConfirmations < t2.minBlockConfirmations < hardCap\<close>.
\<close>

lemma getConfirmationRanges_numbers:
  assumes "getConfirmationRanges c ts = Inr ranges"
    and "\<forall>t \<in> set ts. thresholdAmountInUSD t \<noteq> NaN \<and> minBlockConfirmations t \<noteq> NaN"
    and "t1 \<in> set ts" "t2 \<in> set ts"
    and "jsLess (thresholdAmountInUSD t1) (thresholdAmountInUSD t2)"
  shows "jsLess (minBlockConfirmations t1) (minBlockConfirmations t2)
       \<and> jsLess (minBlockConfirmations t2) (BLOCK_CONFIRMATIONS_HARD_CAPS c)"
proof -
  let ?s = "sortByUsdWorth ts"
  have u: "\<forall>t \<in> set ts. thresholdAmountInUSD t \<noteq> NaN" using assms(2) by simp
  note so = sortByUsdWorth_sorted [OF u]
  have m: "\<forall>t \<in> set ?s. minBlockConfirmations t \<noteq> NaN" using assms(2) so(1) by simp
  have p: "minBlockConfirmations initialPrev \<noteq> NaN" by (simp add: initialPrev_def)
  have f: "forEachThreshold c initialPrev ?s = Inr ranges"
    using assms(1) by (simp add: getConfirmationRanges_def)
  note asc = forEachThreshold_ascending [OF f p m]
  have asc': "sorted_wrt (\<lambda>x y. jsLess (minBlockConfirmations x) (minBlockConfirmations y)) ?s"
    using asc by simp
  obtain i j where i: "i < length ?s" "?s ! i = t1" and j: "j < length ?s" "?s ! j = t2"
    using assms(3,4) so(1) by (metis in_set_conv_nth)
  have "\<not> j \<le> i"
  proof
    assume "j \<le> i"
    then consider "j = i" | "j < i" by linarith
    then show False
    proof cases
      case 1
      then show ?thesis using i j assms(5) jsLess_order(2) by auto
    next
      case 2
      then have "\<not> jsLess (thresholdAmountInUSD (?s ! i)) (thresholdAmountInUSD (?s ! j))"
        using so(3) i(1) by (simp add: sorted_wrt_iff_nth_less)
      then show ?thesis using i j assms(5) by simp
    qed
  qed
  then have "i < j" by simp
  then have "jsLess (minBlockConfirmations (?s ! i)) (minBlockConfirmations (?s ! j))"
    using asc' j(1) by (simp add: sorted_wrt_iff_nth_less)
  then have a: "jsLess (minBlockConfirmations t1) (minBlockConfirmations t2)" using i j by simp
  have "t2 \<in> set ?s" using assms(4) so(1) by simp
  then have b: "jsLess (minBlockConfirmations t2) (BLOCK_CONFIRMATIONS_HARD_CAPS c)"
    using asc by blast
  from a b show ?thesis by blast
qed

text \<open>
  Claim C4. \<open>getConfirmationRanges\<close> should throw if, in the thresholds sorted ascending
  by USD worth, the \<open>minBlockConfirmations\<close> of some threshold is not strictly greater than
  that of the one before it (0 before the first) or not strictly less than the hard cap of
  the chain, so that two accepted thresholds with \<open>t1.usd < t2.usd\<close> satisfy
  \<open>t1.minBlockConfirmations < t2.minBlockConfirmations < hardCap\<close>. The two checks are
  written as \<open>threshold <= prev\<close> and \<open>cap <= threshold\<close>, which are both false for
  \<open>NaN\<close>. On Polygon the thresholds \<open>NaN\<close> confirmations from 100 USD, 5 from 1000 USD
  are accepted and turned into ranges, although \<open>NaN\<close> is neither greater than 0 nor less
  than 5 nor less than the hard cap 256. With 7 confirmations from 100 USD, \<open>NaN\<close> from
  500 USD and 5 from 1000 USD the accepted configuration asks for fewer confirmations from
  1000 USD than from 100 USD.
\<close>

theorem getConfirmationRanges_accepts_NaN:
  "getConfirmationRanges Polygon
      [\<lparr>thresholdAmountInUSD = Num 100, minBlockConfirmations = NaN\<rparr>,
       \<lparr>thresholdAmountInUSD = Num 1000, minBlockConfirmations = Num 5\<rparr>]
     = Inr [\<lparr>usdWorthFrom = Num 0, usdWorthTo = Num 100, rangeMinBlockConfirmations = NaN\<rparr>,
            \<lparr>usdWorthFrom = Num 100, usdWorthTo = Num 1000, rangeMinBlockConfirmations = Num 5\<rparr>]
   \<and> \<not> jsGreater NaN (minBlockConfirmations initialPrev)
   \<and> \<not> jsLess NaN (Num 5)
   \<and> \<not> jsLess NaN (BLOCK_CONFIRMATIONS_HARD_CAPS Polygon)
   \<and> getConfirmationRanges Polygon
      [\<lparr>thresholdAmountInUSD = Num 100, minBlockConfirmations = Num 7\<rparr>,
       \<lparr>thresholdAmountInUSD = Num 500, minBlockConfirmations = NaN\<rparr>,
       \<lparr>thresholdAmountInUSD = Num 1000, minBlockConfirmations = Num 5\<rparr>]
     = Inr [\<lparr>usdWorthFrom = Num 0, usdWorthTo = Num 100, rangeMinBlockConfirmations = Num 7\<rparr>,
            \<lparr>usdWorthFrom = Num 100, usdWorthTo = Num 500, rangeMinBlockConfirmations = NaN\<rparr>,
            \<lparr>usdWorthFrom = Num 500, usdWorthTo = Num 1000, rangeMinBlockConfirmations = Num 5\<rparr>]
   \<and> jsLess (Num 100) (Num 1000) \<and> \<not> jsLess (Num 7) (Num 5)"
  by (simp add: getConfirmationRanges_def sortByUsdWorth_def comparator_def initialPrev_def
        jsGreater_def)

section \<open>Dispatch of an event by the executor\<close>

text \<open>
  \<open>Promise.all\<close> resolves with all answers true exactly when every promise resolved to
  true, and resolves at all exactly when no promise rejected.
\<close>

lemma promiseAll_all_true:
  "(\<exists>results. promiseAll ps = Inr results \<and> list_all (\<lambda>it. it) results) \<longleftrightarrow> (\<forall>r \<in> set ps. r = Inr True)"
proof (induction ps)
  case Nil
  then show ?case by simp
next
  case (Cons r ps)
  show ?case
  proof (cases r)
    case (Inl e)
    then show ?thesis by simp
  next
    case (Inr b)
    then show ?thesis using Cons.IH by (auto split: sum.splits)
  qed
qed

lemma promiseAll_resolved:
  "(\<exists>results. promiseAll ps = Inr results) \<longleftrightarrow> (\<forall>r \<in> set ps. \<exists>b. r = Inr b)"
proof (induction ps)
  case Nil
  then show ?case by simp
next
  case (Cons r ps)
  show ?case
  proof (cases r)
    case (Inl e)
    then show ?thesis by simp
  next
    case (Inr b)
    then show ?thesis using Cons.IH by (auto split: sum.splits)
  qed
qed

lemma ball_map: "(\<forall>r \<in> set (map g fs). P r) \<longleftrightarrow> (\<forall>f \<in> set fs. P (g f))"
  by simp

lemma initChain_filters:
  assumes "initChain globalFilters d = Inr c"
  shows "dstFilters c =
           map (\<lambda>f. f (cd_chain d))
             (cd_dstFilters d @ (if cd_disabled d then [disableFulfill] else []) @ globalFilters)"
    and "srcFilters c = map (\<lambda>f. f (cd_chain d)) (cd_srcFilters d)"
    and "chain' c = cd_chain d"
  using assms by (auto simp: initChain_def Let_def split: sum.splits)

lemma executeOrder_filtered:
  assumes "order ev = Some ord" "orderId ev \<noteq> []"
    and "chains' ex (chainId (take_offer ord)) = Some takeChain"
    and "chains' ex (chainId (give ord)) = Some giveChain"
    and "status ev = Created \<or> status ev = ArchivalCreated"
  shows "executeOrder ex ev =
     (let answers = map (\<lambda>filter. filter ord (chain' giveChain) (chain' takeChain))
                      (dstFilters takeChain @ srcFilters giveChain)
      in (answers,
          case promiseAll answers of
            Inl e \<Rightarrow> Inl e
          | Inr results \<Rightarrow>
              if list_all (\<lambda>it. it) results
              then Inr (Forwarded (chain' takeChain)
                          \<lparr>orderInfo = ev, ctx_giveChain = chain' giveChain,
                           ctx_buckets = buckets ex, attempts = Some 0\<rparr>)
              else Inr Dropped))"
  using assms by (auto simp: executeOrder_def Let_def split: sum.splits)

lemma executeOrder_unfiltered:
  assumes "order ev = Some ord" "orderId ev \<noteq> []"
    and "chains' ex (chainId (take_offer ord)) = Some takeChain"
    and "chains' ex (chainId (give ord)) = Some giveChain"
    and "status ev \<noteq> Created" "status ev \<noteq> ArchivalCreated"
  shows "executeOrder ex ev =
     ([], Inr (Forwarded (chain' takeChain)
                 \<lparr>orderInfo = ev, ctx_giveChain = chain' giveChain,
                  ctx_buckets = buckets ex, attempts = Some 0\<rparr>))"
  using assms by (simp add: executeOrder_def Let_def)

text \<open>
  Claim C3. For an event with a payload and an id whose take chain and give chain are both
  configured: when its status is \<open>Created\<close> or \<open>ArchivalCreated\<close>, the executor calls
  every filter of the take chain's \<open>dstFilters\<close> and of the give chain's \<open>srcFilters\<close>
  and forwards the event to the take chain's processor if and only if every one of them
  answers true; a filter that answers false keeps the event from the processor (it is
  dropped when no filter rejects). When the status is any other, no filter is called and
  the event is forwarded. The global filters are part of \<open>dstFilters\<close>: \<open>init\<close> puts
  them there, after the chain's own and after \<open>disableFulfill\<close> of a disabled chain.
\<close>

theorem executeOrder_filter_unanimity:
  assumes "order ev = Some ord" "orderId ev \<noteq> []"
    and "chains' ex (chainId (take_offer ord)) = Some takeChain"
    and "chains' ex (chainId (give ord)) = Some giveChain"
  shows "(status ev \<in> {Created, ArchivalCreated} \<longrightarrow>
            ((\<exists>c p. snd (executeOrder ex ev) = Inr (Forwarded c p)) \<longleftrightarrow>
               (\<forall>filter \<in> set (dstFilters takeChain @ srcFilters giveChain).
                   filter ord (chain' giveChain) (chain' takeChain) = Inr True))
          \<and> ((\<exists>filter \<in> set (dstFilters takeChain @ srcFilters giveChain).
                   filter ord (chain' giveChain) (chain' takeChain) = Inr False) \<longrightarrow>
               (\<forall>c p. snd (executeOrder ex ev) \<noteq> Inr (Forwarded c p))
               \<and> ((\<forall>filter \<in> set (dstFilters takeChain @ srcFilters giveChain).
                      \<exists>b. filter ord (chain' giveChain) (chain' takeChain) = Inr b) \<longrightarrow>
                    snd (executeOrder ex ev) = Inr Dropped))
          \<and> fst (executeOrder ex ev) =
              map (\<lambda>filter. filter ord (chain' giveChain) (chain' takeChain))
                (dstFilters takeChain @ srcFilters giveChain))
       \<and> (status ev \<in> {Fulfilled, ArchivalFulfilled, Cancelled, Other} \<longrightarrow>
            fst (executeOrder ex ev) = []
            \<and> (\<exists>c p. snd (executeOrder ex ev) = Inr (Forwarded c p)))
       \<and> (\<forall>c p. snd (executeOrder ex ev) = Inr (Forwarded c p) \<longrightarrow>
            c = chain' takeChain \<and> orderInfo p = ev)
       \<and> (\<forall>globalFilters d. initChain globalFilters d = Inr takeChain \<longrightarrow>
            dstFilters takeChain =
              map (\<lambda>f. f (cd_chain d))
                (cd_dstFilters d @ (if cd_disabled d then [disableFulfill] else []) @ globalFilters))"
proof (intro conjI impI allI)
  let ?fs = "dstFilters takeChain @ srcFilters giveChain"
  let ?answers = "map (\<lambda>filter. filter ord (chain' giveChain) (chain' takeChain)) ?fs"
  {
    assume "status ev \<in> {Created, ArchivalCreated}"
    then have st: "status ev = Created \<or> status ev = ArchivalCreated" by simp
    note eq = executeOrder_filtered [OF assms st]
    let ?fw = "Forwarded (chain' takeChain)
                  \<lparr>orderInfo = ev, ctx_giveChain = chain' giveChain,
                   ctx_buckets = buckets ex, attempts = Some 0\<rparr>"
    have sndeq: "snd (executeOrder ex ev) =
        (case promiseAll ?answers of
            Inl e \<Rightarrow> Inl e
          | Inr results \<Rightarrow> if list_all (\<lambda>it. it) results then Inr ?fw else Inr Dropped)"
      unfolding eq Let_def by simp
    have fwd: "(\<exists>c p. snd (executeOrder ex ev) = Inr (Forwarded c p)) \<longleftrightarrow>
          (\<exists>results. promiseAll ?answers = Inr results \<and> list_all (\<lambda>it. it) results)"
    proof (cases "promiseAll ?answers")
      case (Inl e)
      then show ?thesis unfolding sndeq by simp
    next
      case (Inr results)
      then show ?thesis unfolding sndeq by simp
    qed
    show "(\<exists>c p. snd (executeOrder ex ev) = Inr (Forwarded c p)) \<longleftrightarrow>
               (\<forall>filter \<in> set ?fs. filter ord (chain' giveChain) (chain' takeChain) = Inr True)"
      unfolding fwd promiseAll_all_true ball_map ..
    show "fst (executeOrder ex ev) = ?answers"
      unfolding eq Let_def by simp
    {
      assume no: "\<exists>filter \<in> set ?fs. filter ord (chain' giveChain) (chain' takeChain) = Inr False"
      then obtain f where f: "f \<in> set ?fs" "f ord (chain' giveChain) (chain' takeChain) = Inr False"
        by blast
      have "\<not> (\<forall>filter \<in> set ?fs. filter ord (chain' giveChain) (chain' takeChain) = Inr True)"
      proof
        assume "\<forall>filter \<in> set ?fs. filter ord (chain' giveChain) (chain' takeChain) = Inr True"
        then have "f ord (chain' giveChain) (chain' takeChain) = Inr True" using f(1) by blast
        then show False using f(2) by simp
      qed
      then have nf: "\<not> (\<exists>results. promiseAll ?answers = Inr results \<and> list_all (\<lambda>it. it) results)"
        unfolding promiseAll_all_true ball_map .
      then show "\<And>c p. snd (executeOrder ex ev) \<noteq> Inr (Forwarded c p)"
        using fwd by blast
      assume "\<forall>filter \<in> set ?fs. \<exists>b. filter ord (chain' giveChain) (chain' takeChain) = Inr b"
      then have "\<forall>r \<in> set ?answers. \<exists>b. r = Inr b"
        unfolding ball_map .
      then obtain results where r: "promiseAll ?answers = Inr results"
        unfolding promiseAll_resolved [symmetric] by blast
      then have "\<not> list_all (\<lambda>it. it) results" using nf by blast
      then show "snd (executeOrder ex ev) = Inr Dropped"
        unfolding sndeq r by simp
    }
  }
  {
    assume "status ev \<in> {Fulfilled, ArchivalFulfilled, Cancelled, Other}"
    then have st: "status ev \<noteq> Created" "status ev \<noteq> ArchivalCreated" by auto
    note eq = executeOrder_unfiltered [OF assms st]
    show "fst (executeOrder ex ev) = []" unfolding eq by simp
    show "\<exists>c p. snd (executeOrder ex ev) = Inr (Forwarded c p)" unfolding eq by simp
  }
  {
    fix c p
    assume f: "snd (executeOrder ex ev) = Inr (Forwarded c p)"
    show "c = chain' takeChain" "orderInfo p = ev"
    proof -
      have "c = chain' takeChain \<and> orderInfo p = ev"
      proof (cases "status ev = Created \<or> status ev = ArchivalCreated")
        case True
        show ?thesis
        proof (cases "promiseAll (map (\<lambda>filter. filter ord (chain' giveChain) (chain' takeChain)) ?fs)")
          case (Inl e)
          then show ?thesis using f unfolding executeOrder_filtered [OF assms True] Let_def by simp
        next
          case (Inr results)
          then show ?thesis using f unfolding executeOrder_filtered [OF assms True] Let_def
            by (cases "list_all (\<lambda>it. it) results") auto
        qed
      next
        case False
        then have st: "status ev \<noteq> Created" "status ev \<noteq> ArchivalCreated" by auto
        show ?thesis using f unfolding executeOrder_unfiltered [OF assms st] by auto
      qed
      then show "c = chain' takeChain" "orderInfo p = ev" by simp_all
    qed
  }
  {
    fix globalFilters d
    assume "initChain globalFilters d = Inr takeChain"
    then show "dstFilters takeChain =
              map (\<lambda>f. f (cd_chain d))
                (cd_dstFilters d @ (if cd_disabled d then [disableFulfill] else []) @ globalFilters)"
      by (rule initChain_filters)
  }
qed

lemma executorS1_chains:
  "chains' executorS1 (chainId (take_offer orderS1)) =
      Some \<lparr>chain' = Polygon, srcFilters = [], dstFilters = [acceptAll], usdAmountConfirmations = []\<rparr>"
  "chains' executorS1 (chainId (give orderS1)) =
      Some \<lparr>chain' = Arbitrum, srcFilters = [acceptAll], dstFilters = [], usdAmountConfirmations = []\<rparr>"
  by (simp_all add: executorS1_def orderS1_def)

lemma executorS4_chains:
  "chains' executorS4 (chainId (take_offer orderS1)) =
      Some \<lparr>chain' = Polygon, srcFilters = [], dstFilters = [acceptAll, disableFulfill Polygon], usdAmountConfirmations = []\<rparr>"
  "chains' executorS4 (chainId (give orderS1)) =
      Some \<lparr>chain' = Arbitrum, srcFilters = [acceptAll], dstFilters = [], usdAmountConfirmations = []\<rparr>"
  by (simp_all add: executorS4_def orderS1_def)

text \<open>
  The first scenario's order is forwarded when both chains accept everything, dropped
  when Polygon is disabled; its cancellation is forwarded without a filter being called.
\<close>

theorem executeOrder_filter_unanimity_witness:
  "(\<exists>c p. snd (executeOrder executorS1 eventS1) = Inr (Forwarded c p))
   \<and> snd (executeOrder executorS4 eventS1) = Inr Dropped
   \<and> fst (executeOrder executorS4 (eventS1\<lparr>status := Cancelled\<rparr>)) = []
   \<and> (\<exists>c p. snd (executeOrder executorS4 (eventS1\<lparr>status := Cancelled\<rparr>)) = Inr (Forwarded c p))"
proof -
  have o: "order eventS1 = Some orderS1" "orderId eventS1 \<noteq> []" "status eventS1 \<in> {Created, ArchivalCreated}"
    by (simp_all add: eventS1_def)
  have oc: "order (eventS1\<lparr>status := Cancelled\<rparr>) = Some orderS1"
      "orderId (eventS1\<lparr>status := Cancelled\<rparr>) \<noteq> []"
      "status (eventS1\<lparr>status := Cancelled\<rparr>) \<in> {Fulfilled, ArchivalFulfilled, Cancelled, Other}"
    by (simp_all add: eventS1_def)
  note t1 = executeOrder_filter_unanimity [OF o(1,2) executorS1_chains, THEN conjunct1, rule_format, OF o(3)]
  have a: "\<exists>c p. snd (executeOrder executorS1 eventS1) = Inr (Forwarded c p)"
    by (rule t1 [THEN conjunct1, THEN iffD2]) (simp add: acceptAll_def)
  note t4 = executeOrder_filter_unanimity [OF o(1,2) executorS4_chains, THEN conjunct1, rule_format, OF o(3)]
  have b: "snd (executeOrder executorS4 eventS1) = Inr Dropped"
    by (rule t4 [THEN conjunct2, THEN conjunct1, rule_format, THEN conjunct2, rule_format])
       (auto simp: acceptAll_def disableFulfill_def)
  have c: "fst (executeOrder executorS4 (eventS1\<lparr>status := Cancelled\<rparr>)) = []
     \<and> (\<exists>c p. snd (executeOrder executorS4 (eventS1\<lparr>status := Cancelled\<rparr>)) = Inr (Forwarded c p))"
    by (rule executeOrder_filter_unanimity [OF oc(1,2) executorS4_chains, THEN conjunct2, THEN conjunct1, rule_format, OF oc(3)])
  from a b c show ?thesis by blast
qed

section \<open>Events without a payload\<close>

text \<open>
  Claim C10. For an event whose payload or id is missing, \<open>executeOrder\<close> throws "Order
  is undefined" whatever the status, the configured chains and the filters are, and no
  filter has been called; so an event that reaches a processor has its payload and its
  id. \<open>processOrder\<close> throws as well when the payload or the id is missing, and leaves
  the processor as it was.
\<close>

theorem executeOrder_requires_order:
  "((order ev = None \<or> orderId ev = []) \<longrightarrow> executeOrder ex ev = ([], Inl OrderIsUndefined))
   \<and> (\<forall>c p. snd (executeOrder ex ev) = Inr (Forwarded c p) \<longrightarrow>
         order ev \<noteq> None \<and> orderId ev \<noteq> [] \<and> orderInfo p = ev)
   \<and> ((order (orderInfo q) = None \<or> orderId (orderInfo q) = []) \<longrightarrow>
         processOrder w q s = (Inl OrderIsEmpty, s))"
proof (intro conjI impI allI)
  assume "order ev = None \<or> orderId ev = []"
  then show "executeOrder ex ev = ([], Inl OrderIsUndefined)"
    by (auto simp: executeOrder_def split: option.splits)
next
  fix c p
  assume f: "snd (executeOrder ex ev) = Inr (Forwarded c p)"
  then show "order ev \<noteq> None" by (auto simp: executeOrder_def split: option.splits)
  from f show "orderId ev \<noteq> []" by (auto simp: executeOrder_def split: option.splits)
  from f show "orderInfo p = ev"
    by (auto simp: executeOrder_def Let_def split: option.splits if_splits sum.splits)
next
  assume "order (orderInfo q) = None \<or> orderId (orderInfo q) = []"
  then show "processOrder w q s = (Inl OrderIsEmpty, s)"
    by (auto simp: processOrder_def processOrderChecks_def split: option.splits)
qed

text \<open>
  A \<open>Fulfilled\<close> event without payload and a \<open>Cancelled\<close> event with an empty id are
  both refused by the executor; \<open>processOrder\<close> refuses the order with an empty id.
\<close>

theorem executeOrder_requires_order_witness:
  "executeOrder executorS1 \<lparr>orderId = ''O1'', status = Fulfilled, order = None\<rparr> = ([], Inl OrderIsUndefined)
   \<and> executeOrder executorS1 \<lparr>orderId = '''', status = Cancelled, order = Some orderS1\<rparr> = ([], Inl OrderIsUndefined)
   \<and> processOrder worldS1 (paramsS1\<lparr>orderInfo := eventS1\<lparr>orderId := ''''\<rparr>\<rparr>) processorS1
        = (Inl OrderIsEmpty, processorS1)"
proof -
  have a: "executeOrder executorS1 \<lparr>orderId = ''O1'', status = Fulfilled, order = None\<rparr> = ([], Inl OrderIsUndefined)"
    using executeOrder_requires_order [of "\<lparr>orderId = ''O1'', status = Fulfilled, order = None\<rparr>" executorS1]
    by simp
  have b: "executeOrder executorS1 \<lparr>orderId = '''', status = Cancelled, order = Some orderS1\<rparr> = ([], Inl OrderIsUndefined)"
    using executeOrder_requires_order [of "\<lparr>orderId = '''', status = Cancelled, order = Some orderS1\<rparr>" executorS1]
    by simp
  have c: "processOrder worldS1 (paramsS1\<lparr>orderInfo := eventS1\<lparr>orderId := ''''\<rparr>\<rparr>) processorS1
        = (Inl OrderIsEmpty, processorS1)"
    using executeOrder_requires_order [of eventS1 executorS1 "paramsS1\<lparr>orderInfo := eventS1\<lparr>orderId := ''''\<rparr>\<rparr>" worldS1 processorS1]
    by simp
  from a b c show ?thesis by blast
qed

section \<open>Fatal checks of processOrder\<close>

lemma findBucket_None_iff:
  "findBucket bs ord = None \<longleftrightarrow>
     \<not> (\<exists>bucket \<in> set bs. findFirstToken bucket (chainId (give ord)) \<noteq> None
                          \<and> findFirstToken bucket (chainId (take_offer ord)) \<noteq> None)"
  by (auto simp: findBucket_def find_None_iff)

lemma processOrder_checks_failed:
  "processOrderChecks w p = Inl e \<Longrightarrow> processOrder w p s = (Inl e, s)"
  by (simp add: processOrder_def)

lemma processOrderChecks_cases:
  assumes "order (orderInfo p) = Some ord"
  shows "processOrderChecks w p =
     (if orderId (orderInfo p) = [] then Inl OrderIsEmpty
      else if findBucket (ctx_buckets p) ord = None then Inl NoTokenBucket
      else
        (case getTakeOrderStatus w (orderId (orderInfo p)) (chainId (take_offer ord)) of
           Inl rejection \<Rightarrow> Inl rejection
         | Inr takeOrderStatus \<Rightarrow>
             if takeOrderStatus \<notin> {Some NotSet, None} then Inl OrderIsFulfilled
             else
               (case getGiveOrderStatus w (orderId (orderInfo p)) (chainId (give ord)) of
                  Inl rejection \<Rightarrow> Inl rejection
                | Inr giveOrderStatus \<Rightarrow>
                    if giveOrderStatus \<noteq> Some OrderCreated then Inl OrderIsNotCreated
                    else Inr ord)))"
  using assms by (auto simp: processOrderChecks_def split: sum.splits)

lemma paramsS1_order: "order (orderInfo paramsS1) = Some orderS1" "orderId (orderInfo paramsS1) = ''O1''"
  "ctx_buckets paramsS1 = [usdcBucket]"
  by (simp_all add: paramsS1_def eventS1_def)

lemma usdcBucket_covers: "findBucket [usdcBucket] orderS1 = Some usdcBucket"
  by (simp add: findBucket_def findFirstToken_def usdcBucket_def orderS1_def)

text \<open>
  Claim C5, as amended. For an order that has its payload and its id, \<open>processOrder\<close>
  throws before the profitability computation in exactly these cases: no bucket has a
  token on both the give chain and the take chain; the take chain reports a status that is
  neither \<open>NotSet\<close> nor missing; the give chain reports a status that is not \<open>Created\<close>;
  or one of these two status queries fails, and its error is the one thrown. The checks
  are made in this order, each with its own error. In each case the order is dropped: the
  processor, its mempool included, is left as it was.
\<close>

theorem processOrder_fatal_checks:
  assumes "order (orderInfo p) = Some ord" and "orderId (orderInfo p) \<noteq> []"
  shows
  "((\<exists>e. processOrderChecks w p = Inl e) \<longleftrightarrow>
        \<not> (\<exists>bucket \<in> set (ctx_buckets p).
              findFirstToken bucket (chainId (give ord)) \<noteq> None
              \<and> findFirstToken bucket (chainId (take_offer ord)) \<noteq> None)
      \<or> (\<exists>st. getTakeOrderStatus w (orderId (orderInfo p)) (chainId (take_offer ord)) = Inr st
               \<and> st \<notin> {Some NotSet, None})
      \<or> (\<exists>st. getGiveOrderStatus w (orderId (orderInfo p)) (chainId (give ord)) = Inr st
               \<and> st \<noteq> Some OrderCreated)
      \<or> (\<exists>rejection. getTakeOrderStatus w (orderId (orderInfo p)) (chainId (take_offer ord)) = Inl rejection)
      \<or> (\<exists>rejection. getGiveOrderStatus w (orderId (orderInfo p)) (chainId (give ord)) = Inl rejection))
   \<and> (findBucket (ctx_buckets p) ord = None \<longleftrightarrow>
        \<not> (\<exists>bucket \<in> set (ctx_buckets p).
              findFirstToken bucket (chainId (give ord)) \<noteq> None
              \<and> findFirstToken bucket (chainId (take_offer ord)) \<noteq> None))
   \<and> (findBucket (ctx_buckets p) ord = None \<longrightarrow> processOrderChecks w p = Inl NoTokenBucket)
   \<and> (\<forall>rejection. findBucket (ctx_buckets p) ord \<noteq> None
          \<and> getTakeOrderStatus w (orderId (orderInfo p)) (chainId (take_offer ord)) = Inl rejection
        \<longrightarrow> processOrderChecks w p = Inl rejection)
   \<and> (\<forall>st. findBucket (ctx_buckets p) ord \<noteq> None
          \<and> getTakeOrderStatus w (orderId (orderInfo p)) (chainId (take_offer ord)) = Inr st
          \<and> st \<notin> {Some NotSet, None}
        \<longrightarrow> processOrderChecks w p = Inl OrderIsFulfilled)
   \<and> (\<forall>st rejection. findBucket (ctx_buckets p) ord \<noteq> None
          \<and> getTakeOrderStatus w (orderId (orderInfo p)) (chainId (take_offer ord)) = Inr st
          \<and> st \<in> {Some NotSet, None}
          \<and> getGiveOrderStatus w (orderId (orderInfo p)) (chainId (give ord)) = Inl rejection
        \<longrightarrow> processOrderChecks w p = Inl rejection)
   \<and> (\<forall>st st'. findBucket (ctx_buckets p) ord \<noteq> None
          \<and> getTakeOrderStatus w (orderId (orderInfo p)) (chainId (take_offer ord)) = Inr st
          \<and> st \<in> {Some NotSet, None}
          \<and> getGiveOrderStatus w (orderId (orderInfo p)) (chainId (give ord)) = Inr st'
          \<and> st' \<noteq> Some OrderCreated
        \<longrightarrow> processOrderChecks w p = Inl OrderIsNotCreated)
   \<and> (\<forall>e. processOrderChecks w p = Inl e \<longrightarrow>
         processOrder w p s = (Inl e, s) \<and> mempool (snd (processOrder w p s)) = mempool s)"
proof -
  let ?T = "getTakeOrderStatus w (orderId (orderInfo p)) (chainId (take_offer ord))"
  let ?G = "getGiveOrderStatus w (orderId (orderInfo p)) (chainId (give ord))"
  let ?B = "\<exists>bucket \<in> set (ctx_buckets p).
              findFirstToken bucket (chainId (give ord)) \<noteq> None
              \<and> findFirstToken bucket (chainId (take_offer ord)) \<noteq> None"
  note c = processOrderChecks_cases [OF assms(1), of w]
  have b: "findBucket (ctx_buckets p) ord = None \<longleftrightarrow> \<not> ?B"
    by (rule findBucket_None_iff)
  have throws: "(\<exists>e. processOrderChecks w p = Inl e) \<longleftrightarrow>
        \<not> ?B \<or> (\<exists>st. ?T = Inr st \<and> st \<notin> {Some NotSet, None})
      \<or> (\<exists>st. ?G = Inr st \<and> st \<noteq> Some OrderCreated)
      \<or> (\<exists>rejection. ?T = Inl rejection) \<or> (\<exists>rejection. ?G = Inl rejection)"
  proof (cases "findBucket (ctx_buckets p) ord = None")
    case True
    then show ?thesis unfolding c using assms(2) b by simp
  next
    case False
    then have B: "?B" using b by simp
    show ?thesis
    proof (cases ?T)
      case (Inl r)
      then show ?thesis unfolding c using assms(2) False by simp
    next
      case T: (Inr st)
      show ?thesis
      proof (cases ?G)
        case (Inl r)
        then show ?thesis unfolding c using assms(2) False T by simp
      next
        case G: (Inr st')
        show ?thesis unfolding c using assms(2) False B T G by simp
      qed
    qed
  qed
  have none: "findBucket (ctx_buckets p) ord = None \<longrightarrow> processOrderChecks w p = Inl NoTokenBucket"
    unfolding c using assms(2) by simp
  have trej: "\<forall>rejection. findBucket (ctx_buckets p) ord \<noteq> None \<and> ?T = Inl rejection
        \<longrightarrow> processOrderChecks w p = Inl rejection"
    unfolding c using assms(2) by auto
  have tbad: "\<forall>st. findBucket (ctx_buckets p) ord \<noteq> None \<and> ?T = Inr st \<and> st \<notin> {Some NotSet, None}
        \<longrightarrow> processOrderChecks w p = Inl OrderIsFulfilled"
    unfolding c using assms(2) by (auto split: if_splits)
  have grej: "\<forall>st rejection. findBucket (ctx_buckets p) ord \<noteq> None \<and> ?T = Inr st
          \<and> st \<in> {Some NotSet, None} \<and> ?G = Inl rejection
        \<longrightarrow> processOrderChecks w p = Inl rejection"
    unfolding c using assms(2) by auto
  have gbad: "\<forall>st st'. findBucket (ctx_buckets p) ord \<noteq> None \<and> ?T = Inr st
          \<and> st \<in> {Some NotSet, None} \<and> ?G = Inr st' \<and> st' \<noteq> Some OrderCreated
        \<longrightarrow> processOrderChecks w p = Inl OrderIsNotCreated"
    unfolding c using assms(2) by auto
  have drop: "\<forall>e. processOrderChecks w p = Inl e \<longrightarrow>
         processOrder w p s = (Inl e, s) \<and> mempool (snd (processOrder w p s)) = mempool s"
    by (simp add: processOrder_def)
  from throws b none trej tbad grej gbad drop show ?thesis by blast
qed

text \<open>
  The claim as stated names three cases only. Here the order has its payload and its id,
  the bucket covers both chains and the give chain reports \<open>Created\<close>; the query for the
  take status fails, so that no status is returned, and \<open>processOrder\<close> throws the error
  of the query.
\<close>

theorem processOrder_fatal_checks_counterexample:
  "processOrder worldS5 paramsS1 processorS1 = (Inl (Rejected ''request failed''), processorS1)
   \<and> order (orderInfo paramsS1) = Some orderS1
   \<and> orderId (orderInfo paramsS1) = ''O1''
   \<and> findBucket (ctx_buckets paramsS1) orderS1 = Some usdcBucket
   \<and> findFirstToken usdcBucket (chainId (give orderS1)) = Some usdcArbitrum
   \<and> findFirstToken usdcBucket (chainId (take_offer orderS1)) = Some usdcPolygon
   \<and> getTakeOrderStatus worldS5 ''O1'' (chainId (take_offer orderS1)) = Inl (Rejected ''request failed'')
   \<and> getGiveOrderStatus worldS5 ''O1'' (chainId (give orderS1)) = Inr (Some OrderCreated)"
  by (simp add: processOrder_def processOrderChecks_def paramsS1_def eventS1_def worldS1_def
        worldS5_def findBucket_def findFirstToken_def usdcBucket_def orderS1_def)

text \<open>
  An order already fulfilled on the take chain, an order unknown to the give chain, an
  order no bucket covers and an order whose take status cannot be queried are each refused
  with their own error; the first scenario's order passes the checks.
\<close>

theorem processOrder_fatal_checks_witness:
  "processOrder (worldS1\<lparr>getTakeOrderStatus := (\<lambda>i c. Inr (Some OrderFulfilled))\<rparr>) paramsS1 processorS1
      = (Inl OrderIsFulfilled, processorS1)
   \<and> processOrder (worldS1\<lparr>getGiveOrderStatus := (\<lambda>i c. Inr None)\<rparr>) paramsS1 processorS1
      = (Inl OrderIsNotCreated, processorS1)
   \<and> processOrder worldS1 (paramsS1\<lparr>ctx_buckets := []\<rparr>) processorS1
      = (Inl NoTokenBucket, processorS1)
   \<and> processOrder worldS5 paramsS1 processorS1
      = (Inl (Rejected ''request failed''), processorS1)
   \<and> \<not> (\<exists>e. processOrderChecks worldS1 paramsS1 = Inl e)"
proof -
  let ?w5 = "worldS1\<lparr>getTakeOrderStatus := (\<lambda>i c. Inr (Some OrderFulfilled))\<rparr>"
  let ?w6 = "worldS1\<lparr>getGiveOrderStatus := (\<lambda>i c. Inr None)\<rparr>"
  let ?p = "paramsS1\<lparr>ctx_buckets := []\<rparr>"
  have id: "orderId (orderInfo paramsS1) \<noteq> []" by (simp add: paramsS1_order)
  note t5 = processOrder_fatal_checks [OF paramsS1_order(1) id, of ?w5 processorS1]
  have "processOrderChecks ?w5 paramsS1 = Inl OrderIsFulfilled"
    by (rule t5 [THEN conjunct2, THEN conjunct2, THEN conjunct2, THEN conjunct2, THEN conjunct1,
                 rule_format, of "Some OrderFulfilled"])
       (simp add: paramsS1_order usdcBucket_covers worldS1_def)
  then have a: "processOrder ?w5 paramsS1 processorS1 = (Inl OrderIsFulfilled, processorS1)"
    by (rule t5 [THEN conjunct2, THEN conjunct2, THEN conjunct2, THEN conjunct2, THEN conjunct2,
                 THEN conjunct2, THEN conjunct2, rule_format, THEN conjunct1])
  note t6 = processOrder_fatal_checks [OF paramsS1_order(1) id, of ?w6 processorS1]
  have "processOrderChecks ?w6 paramsS1 = Inl OrderIsNotCreated"
    by (rule t6 [THEN conjunct2, THEN conjunct2, THEN conjunct2, THEN conjunct2, THEN conjunct2,
                 THEN conjunct2, THEN conjunct1, rule_format, of "Some NotSet" None])
       (simp add: paramsS1_order usdcBucket_covers worldS1_def)
  then have b: "processOrder ?w6 paramsS1 processorS1 = (Inl OrderIsNotCreated, processorS1)"
    by (rule t6 [THEN conjunct2, THEN conjunct2, THEN conjunct2, THEN conjunct2, THEN conjunct2,
                 THEN conjunct2, THEN conjunct2, rule_format, THEN conjunct1])
  have po: "order (orderInfo ?p) = Some orderS1" "orderId (orderInfo ?p) \<noteq> []"
    by (simp_all add: paramsS1_order)
  note t7 = processOrder_fatal_checks [OF po, of worldS1 processorS1]
  have "processOrderChecks worldS1 ?p = Inl NoTokenBucket"
    by (rule t7 [THEN conjunct2, THEN conjunct2, THEN conjunct1, rule_format])
       (simp add: findBucket_def)
  then have c: "processOrder worldS1 ?p processorS1 = (Inl NoTokenBucket, processorS1)"
    by (rule t7 [THEN conjunct2, THEN conjunct2, THEN conjunct2, THEN conjunct2, THEN conjunct2,
                 THEN conjunct2, THEN conjunct2, rule_format, THEN conjunct1])
  note t8 = processOrder_fatal_checks [OF paramsS1_order(1) id, of worldS5 processorS1]
  have "processOrderChecks worldS5 paramsS1 = Inl (Rejected ''request failed'')"
    by (rule t8 [THEN conjunct2, THEN conjunct2, THEN conjunct2, THEN conjunct1, rule_format])
       (simp add: paramsS1_order usdcBucket_covers worldS5_def)
  then have d: "processOrder worldS5 paramsS1 processorS1 = (Inl (Rejected ''request failed''), processorS1)"
    by (rule t8 [THEN conjunct2, THEN conjunct2, THEN conjunct2, THEN conjunct2, THEN conjunct2,
                 THEN conjunct2, THEN conjunct2, rule_format, THEN conjunct1])
  note t9 = processOrder_fatal_checks [OF paramsS1_order(1) id, of worldS1 processorS1]
  have e: "\<not> (\<exists>e. processOrderChecks worldS1 paramsS1 = Inl e)"
    unfolding t9 [THEN conjunct1]
    by (simp add: paramsS1_order worldS1_def usdcBucket_def findFirstToken_def orderS1_def)
  from a b c d e show ?thesis by blast
qed

section \<open>Soft failures of processOrder\<close>

text \<open>
  Claim C6. For an order that passed the checks: when the profitability computation says
  the order is not profitable, or the balance of the reserve token is less than the
  required amount, or the sending of the fulfill transaction fails, \<open>processOrder\<close>
  returns without throwing and the order, with its context, is in the mempool.
\<close>

theorem processOrder_soft_failures:
  assumes "processOrderChecks w p = Inr ord"
    and "e = calculateExpectedTakeAmount w ord (minProfitabilityBps (params s))
               (if chainId (give ord) = Solana \<or> chainId (take_offer ord) = Solana
                then None else Some (batchUnlockSize (params s)))"
    and "\<not> isProfitable e
         \<or> getBalance w (reserveDstToken e) < requiredReserveDstAmount e
         \<or> (\<exists>failure. sendTransaction w
               (createOrderFullfillTx (orderId (orderInfo p)) ord (reserveDstToken e)
                  (requiredReserveDstAmount e) (reserveToTakeSlippageBps e)) = Inl failure)"
  shows "processOrder w p s = (Inr (), mempoolAddOrder (p\<lparr>attempts := None\<rparr>) s)
       \<and> mempool (snd (processOrder w p s)) (orderId (orderInfo p)) = Some (p\<lparr>attempts := None\<rparr>)
       \<and> orderInfo (p\<lparr>attempts := None\<rparr>) = orderInfo p
       \<and> ctx_giveChain (p\<lparr>attempts := None\<rparr>) = ctx_giveChain p
       \<and> ctx_buckets (p\<lparr>attempts := None\<rparr>) = ctx_buckets p"
proof -
  have "processOrder w p s = (Inr (), mempoolAddOrder (p\<lparr>attempts := None\<rparr>) s)"
    using assms(3) unfolding processOrder_def assms(1) processOrderFulfill_def assms(2) Let_def
    by (auto split: sum.splits)
  then show ?thesis by (simp add: mempoolAddOrder_def)
qed

text \<open>
  The first scenario's order is deferred when it is not profitable, when the balance is
  98 against 99 required, and when the transaction is rejected.
\<close>

theorem processOrder_soft_failures_witness:
  "processOrder worldS3 paramsS1 processorS1
      = (Inr (), mempoolAddOrder (paramsS1\<lparr>attempts := None\<rparr>) processorS1)
   \<and> mempool (snd (processOrder worldS3 paramsS1 processorS1)) ''O1'' = Some (paramsS1\<lparr>attempts := None\<rparr>)
   \<and> processOrder (worldS1\<lparr>getBalance := (\<lambda>token. 98)\<rparr>) paramsS1 processorS1
      = (Inr (), mempoolAddOrder (paramsS1\<lparr>attempts := None\<rparr>) processorS1)
   \<and> processOrder (worldS1\<lparr>sendTransaction := (\<lambda>tx. Inl (Rejected ''nonce''))\<rparr>) paramsS1 processorS1
      = (Inr (), mempoolAddOrder (paramsS1\<lparr>attempts := None\<rparr>) processorS1)"
proof -
  let ?wb = "worldS1\<lparr>getBalance := (\<lambda>token. 98)\<rparr>"
  let ?ws = "worldS1\<lparr>sendTransaction := (\<lambda>tx. Inl (Rejected ''nonce''))\<rparr>"
  have ch: "processOrderChecks worldS3 paramsS1 = Inr orderS1"
       "processOrderChecks ?wb paramsS1 = Inr orderS1"
       "processOrderChecks ?ws paramsS1 = Inr orderS1"
    by (simp_all add: processOrderChecks_cases [OF paramsS1_order(1)] paramsS1_order usdcBucket_covers
          worldS1_def worldS3_def)
  have a1: "processOrder worldS3 paramsS1 processorS1
      = (Inr (), mempoolAddOrder (paramsS1\<lparr>attempts := None\<rparr>) processorS1)"
    by (rule processOrder_soft_failures [OF ch(1) refl, THEN conjunct1])
       (simp add: worldS3_def worldS1_def)
  have "mempool (snd (processOrder worldS3 paramsS1 processorS1)) (orderId (orderInfo paramsS1))
          = Some (paramsS1\<lparr>attempts := None\<rparr>)"
    by (rule processOrder_soft_failures [OF ch(1) refl, THEN conjunct2, THEN conjunct1])
       (simp add: worldS3_def worldS1_def)
  then have a2: "mempool (snd (processOrder worldS3 paramsS1 processorS1)) ''O1''
          = Some (paramsS1\<lparr>attempts := None\<rparr>)"
    by (simp only: paramsS1_order)
  note a = conjI [OF a1 a2]
  have b: "processOrder ?wb paramsS1 processorS1
      = (Inr (), mempoolAddOrder (paramsS1\<lparr>attempts := None\<rparr>) processorS1)"
    by (rule processOrder_soft_failures [OF ch(2) refl, THEN conjunct1])
       (simp add: worldS1_def)
  have c: "processOrder ?ws paramsS1 processorS1
      = (Inr (), mempoolAddOrder (paramsS1\<lparr>attempts := None\<rparr>) processorS1)"
    by (rule processOrder_soft_failures [OF ch(3) refl, THEN conjunct1])
       (simp add: worldS1_def)
  from a b c show ?thesis by blast
qed

section \<open>The serial discipline of the universal processor\<close>

text \<open>
  \<open>processOrder\<close> and \<open>pickNextOrder\<close> leave the lock and the observers alone;
  \<open>processOrder\<close> leaves the queues alone as well.
\<close>

lemma processOrder_frame:
  "priorityQueue (snd (processOrder w p s)) = priorityQueue s"
  "queue (snd (processOrder w p s)) = queue s"
  "incomingOrdersMap (snd (processOrder w p s)) = incomingOrdersMap s"
  "isLocked (snd (processOrder w p s)) = isLocked s"
  "inFlight (snd (processOrder w p s)) = inFlight s"
  "started (snd (processOrder w p s)) = started s"
  "params (snd (processOrder w p s)) = params s"
  by (simp_all add: processOrder_def processOrderFulfill_def mempoolAddOrder_def unlockOrder_def
        Let_def split: sum.splits)

lemma pickNextOrder_frame:
  "isLocked (snd (pickNextOrder s)) = isLocked s"
  "inFlight (snd (pickNextOrder s)) = inFlight s"
  "started (snd (pickNextOrder s)) = started s"
  by (simp_all add: pickNextOrder_def split: option.splits)

lemma tryProcess_idle:
  "\<not> isLocked s \<Longrightarrow>
     tryProcess p s = Inr (s\<lparr>isLocked := True, inFlight := inFlight s @ [p],
                             started := started s @ [orderId (orderInfo p)]\<rparr>)"
  by (simp add: tryProcess_def)

lemma tryProcess_busy:
  "isLocked s \<Longrightarrow> status (orderInfo p) = Created \<Longrightarrow>
     tryProcess p s =
       Inr (s\<lparr>priorityQueue := setAdd (orderId (orderInfo p)) (priorityQueue s),
              incomingOrdersMap := (incomingOrdersMap s)(orderId (orderInfo p) \<mapsto> p)\<rparr>)"
  "isLocked s \<Longrightarrow> status (orderInfo p) = ArchivalCreated \<Longrightarrow>
     tryProcess p s =
       Inr (s\<lparr>queue := setAdd (orderId (orderInfo p)) (queue s),
              incomingOrdersMap := (incomingOrdersMap s)(orderId (orderInfo p) \<mapsto> p)\<rparr>)"
  by (simp_all add: tryProcess_def)

lemma process_created:
  "status (orderInfo p) = Created \<or> status (orderInfo p) = ArchivalCreated \<Longrightarrow>
     process p s = tryProcess p s"
  by (auto simp: process_def Let_def)

lemma serial_tryProcess: "serial s \<Longrightarrow> tryProcess p s = Inr s' \<Longrightarrow> serial s'"
  by (cases "status (orderInfo p)") (auto simp: serial_def tryProcess_def split: if_splits)

lemma serial_process: "serial s \<Longrightarrow> process p s = Inr s' \<Longrightarrow> serial s'"
  by (cases "status (orderInfo p)")
     (auto simp: process_def Let_def mempoolDelete_def unlockOrder_def serial_def
           dest: serial_tryProcess [unfolded serial_def])

lemma serial_resume:
  assumes "serial s" "p \<in> set (inFlight s)"
  shows "serial (tryProcessResume w p s)"
proof -
  from assms have one: "inFlight s = [p]"
    by (cases "inFlight s") (auto simp: serial_def split: if_splits)
  define s2 where "s2 = (snd (processOrder w p s))\<lparr>isLocked := False,
      inFlight := remove1 p (inFlight (snd (processOrder w p s)))\<rparr>"
  have s2: "\<not> isLocked s2" "inFlight s2 = []"
    by (simp_all add: s2_def processOrder_frame one)
  define s3 where "s3 = snd (pickNextOrder s2)"
  have s3: "\<not> isLocked s3" "inFlight s3 = []"
    by (simp_all add: s3_def pickNextOrder_frame s2)
  then have ser3: "serial s3" by (simp add: serial_def)
  have eq: "tryProcessResume w p s =
      (case fst (pickNextOrder s2) of None \<Rightarrow> s3
       | Some n \<Rightarrow> (case tryProcess n s3 of Inl e \<Rightarrow> s3 | Inr s4 \<Rightarrow> s4))"
    unfolding tryProcessResume_def Let_def s2_def s3_def ..
  show ?thesis
    unfolding eq using ser3 serial_tryProcess [OF ser3]
    by (auto split: option.splits sum.splits)
qed

lemma serial_step: "serial s \<Longrightarrow> step ev s = Some s' \<Longrightarrow> serial s'"
  by (cases ev) (auto simp: step_def split: sum.splits if_splits intro: serial_process serial_resume)

lemma serial_run: "serial s \<Longrightarrow> run evs s = Some s' \<Longrightarrow> serial s'"
proof (induction evs arbitrary: s)
  case Nil
  then show ?case by simp
next
  case (Cons ev evs)
  then show ?case by (auto split: option.splits dest: serial_step)
qed

lemma serial_initial: "serial (initialProcessor ps)"
  by (simp add: serial_def initialProcessor_def)

lemma wf_fields:
  "priorityQueue s' = priorityQueue s \<Longrightarrow> queue s' = queue s \<Longrightarrow>
   incomingOrdersMap s' = incomingOrdersMap s \<Longrightarrow> queuesWellFormed s' = queuesWellFormed s"
  by (simp add: queuesWellFormed_def)

lemma wf_tryProcess:
  assumes "queuesWellFormed s" "isLocked s \<longrightarrow> orderId (orderInfo p) \<noteq> []" "tryProcess p s = Inr s'"
  shows "queuesWellFormed s'"
proof (cases "isLocked s")
  case False
  then have "s' = s\<lparr>isLocked := True, inFlight := inFlight s @ [p],
                             started := started s @ [orderId (orderInfo p)]\<rparr>"
    using assms(3) by (simp add: tryProcess_idle)
  then show ?thesis using assms(1) by (simp add: queuesWellFormed_def)
next
  case True
  then have i: "orderId (orderInfo p) \<noteq> []" using assms(2) by simp
  show ?thesis
  proof (cases "status (orderInfo p)")
    case Created
    then have "s' = s\<lparr>priorityQueue := setAdd (orderId (orderInfo p)) (priorityQueue s),
              incomingOrdersMap := (incomingOrdersMap s)(orderId (orderInfo p) \<mapsto> p)\<rparr>"
      using assms(3) True by (simp add: tryProcess_busy)
    then show ?thesis using assms(1) i by (auto simp: queuesWellFormed_def setAdd_def)
  next
    case ArchivalCreated
    then have "s' = s\<lparr>queue := setAdd (orderId (orderInfo p)) (queue s),
              incomingOrdersMap := (incomingOrdersMap s)(orderId (orderInfo p) \<mapsto> p)\<rparr>"
      using assms(3) True by (simp add: tryProcess_busy)
    then show ?thesis using assms(1) i by (auto simp: queuesWellFormed_def setAdd_def)
  qed (use assms(3) True in \<open>simp_all add: tryProcess_def\<close>)
qed

lemma wf_forget:
  "queuesWellFormed s \<Longrightarrow>
   queuesWellFormed (s\<lparr>queue := setDelete i (queue s), priorityQueue := setDelete i (priorityQueue s),
                       incomingOrdersMap := (incomingOrdersMap s)(i := None)\<rparr>)"
  by (auto simp: queuesWellFormed_def setDelete_def distinct_removeAll)

lemma wf_process:
  assumes "queuesWellFormed s" "orderId (orderInfo p) \<noteq> []" "process p s = Inr s'"
  shows "queuesWellFormed s'"
proof (cases "status (orderInfo p)")
  case Created
  then show ?thesis using assms wf_tryProcess [of s p s'] by (simp add: process_created)
next
  case ArchivalCreated
  then show ?thesis using assms wf_tryProcess [of s p s'] by (simp add: process_created)
next
  case Fulfilled
  then have "s' = unlockOrder (orderId (orderInfo p)) (order (orderInfo p))
                 (mempoolDelete (orderId (orderInfo p))
                    (s\<lparr>queue := setDelete (orderId (orderInfo p)) (queue s),
                       priorityQueue := setDelete (orderId (orderInfo p)) (priorityQueue s),
                       incomingOrdersMap := (incomingOrdersMap s)(orderId (orderInfo p) := None)\<rparr>))"
    using assms(3) by (simp add: process_def Let_def)
  then show ?thesis
    using wf_forget [OF assms(1), of "orderId (orderInfo p)"]
    by (simp add: queuesWellFormed_def unlockOrder_def mempoolDelete_def)
next
  case ArchivalFulfilled
  then show ?thesis using assms by (auto simp: process_def Let_def unlockOrder_def queuesWellFormed_def)
next
  case Cancelled
  then have "s' = mempoolDelete (orderId (orderInfo p))
                    (s\<lparr>queue := setDelete (orderId (orderInfo p)) (queue s),
                       priorityQueue := setDelete (orderId (orderInfo p)) (priorityQueue s),
                       incomingOrdersMap := (incomingOrdersMap s)(orderId (orderInfo p) := None)\<rparr>)"
    using assms(3) by (simp add: process_def Let_def)
  then show ?thesis
    using wf_forget [OF assms(1), of "orderId (orderInfo p)"]
    by (simp add: queuesWellFormed_def mempoolDelete_def)
next
  case Other
  then show ?thesis using assms by (simp add: process_def Let_def)
qed

lemma wf_pick: "queuesWellFormed s \<Longrightarrow> queuesWellFormed (snd (pickNextOrder s))"
  using wf_forget [of s]
  by (auto simp: pickNextOrder_def queuesWellFormed_def setDelete_def split: option.splits)

lemma wf_resume:
  assumes "queuesWellFormed s"
  shows "queuesWellFormed (tryProcessResume w p s)"
proof -
  define s2 where "s2 = (snd (processOrder w p s))\<lparr>isLocked := False,
      inFlight := remove1 p (inFlight (snd (processOrder w p s)))\<rparr>"
  have "queuesWellFormed s2 = queuesWellFormed s"
    by (rule wf_fields) (simp_all add: s2_def processOrder_frame)
  then have wf2: "queuesWellFormed s2" using assms by simp
  have l2: "\<not> isLocked s2" by (simp add: s2_def)
  define s3 where "s3 = snd (pickNextOrder s2)"
  have wf3: "queuesWellFormed s3" unfolding s3_def by (rule wf_pick [OF wf2])
  have l3: "\<not> isLocked s3" by (simp add: s3_def pickNextOrder_frame l2)
  have eq: "tryProcessResume w p s =
      (case fst (pickNextOrder s2) of None \<Rightarrow> s3
       | Some n \<Rightarrow> (case tryProcess n s3 of Inl e \<Rightarrow> s3 | Inr s4 \<Rightarrow> s4))"
    unfolding tryProcessResume_def Let_def s2_def s3_def ..
  show ?thesis
    unfolding eq using wf3 l3 wf_tryProcess [OF wf3]
    by (auto split: option.splits sum.splits)
qed

lemma wf_step:
  "queuesWellFormed s \<Longrightarrow> arrivalsHaveIds [ev] \<Longrightarrow> step ev s = Some s' \<Longrightarrow> queuesWellFormed s'"
  by (cases ev)
     (auto simp: step_def arrivalsHaveIds_def split: sum.splits if_splits intro: wf_process wf_resume)

lemma wf_run:
  "queuesWellFormed s \<Longrightarrow> arrivalsHaveIds evs \<Longrightarrow> run evs s = Some s' \<Longrightarrow> queuesWellFormed s'"
proof (induction evs arbitrary: s)
  case Nil
  then show ?case by simp
next
  case (Cons ev evs)
  from Cons.prems(2) have a: "arrivalsHaveIds [ev]" "arrivalsHaveIds evs"
    by (simp_all add: arrivalsHaveIds_def)
  from Cons.prems(3) obtain s1 where s1: "step ev s = Some s1" "run evs s1 = Some s'"
    by (auto split: option.splits)
  show ?case
    by (rule Cons.IH [OF wf_step [OF Cons.prems(1) a(1) s1(1)] a(2) s1(2)])
qed

lemma wf_initial: "queuesWellFormed (initialProcessor ps)"
  by (simp add: queuesWellFormed_def initialProcessor_def)

text \<open>
  What the continuation of \<open>tryProcess\<close> does in a well-formed state with one order in
  flight: it starts the head of the primary queue, else the head of the secondary queue,
  else nothing.
\<close>

lemma resume_next:
  fixes w :: World
  assumes "inFlight s = [p]"
  defines "s2 \<equiv> (snd (processOrder w p s))\<lparr>isLocked := False,
      inFlight := remove1 p (inFlight (snd (processOrder w p s)))\<rparr>"
  shows "priorityQueue s2 = priorityQueue s" "queue s2 = queue s"
    "incomingOrdersMap s2 = incomingOrdersMap s" "\<not> isLocked s2" "inFlight s2 = []"
    "started s2 = started s"
    "tryProcessResume w p s =
      (case fst (pickNextOrder s2) of None \<Rightarrow> snd (pickNextOrder s2)
       | Some n \<Rightarrow> (case tryProcess n (snd (pickNextOrder s2)) of
                      Inl e \<Rightarrow> snd (pickNextOrder s2) | Inr s4 \<Rightarrow> s4))"
proof -
  show "priorityQueue s2 = priorityQueue s" "queue s2 = queue s"
    "incomingOrdersMap s2 = incomingOrdersMap s" "\<not> isLocked s2" "inFlight s2 = []"
    "started s2 = started s"
    by (simp_all add: s2_def processOrder_frame assms(1))
  show "tryProcessResume w p s =
      (case fst (pickNextOrder s2) of None \<Rightarrow> snd (pickNextOrder s2)
       | Some n \<Rightarrow> (case tryProcess n (snd (pickNextOrder s2)) of
                      Inl e \<Rightarrow> snd (pickNextOrder s2) | Inr s4 \<Rightarrow> s4))"
    unfolding tryProcessResume_def Let_def s2_def ..
qed

lemma pickNextOrder_primary:
  assumes "priorityQueue s = h # t" "h \<noteq> []"
  shows "nextOrderId s = Some h"
    and "pickNextOrder s =
      (incomingOrdersMap s h,
       s\<lparr>priorityQueue := setDelete h (priorityQueue s), queue := setDelete h (queue s),
         incomingOrdersMap := (incomingOrdersMap s)(h := None)\<rparr>)"
  using assms by (simp_all add: pickNextOrder_def nextOrderId_def firstValue_def)

lemma pickNextOrder_secondary:
  assumes "priorityQueue s = []" "queue s = h # t" "h \<noteq> []"
  shows "nextOrderId s = Some h"
    and "pickNextOrder s =
      (incomingOrdersMap s h,
       s\<lparr>priorityQueue := setDelete h (priorityQueue s), queue := setDelete h (queue s),
         incomingOrdersMap := (incomingOrdersMap s)(h := None)\<rparr>)"
  using assms by (simp_all add: pickNextOrder_def nextOrderId_def firstValue_def)

lemma pickNextOrder_none:
  assumes "priorityQueue s = []" "queue s = []"
  shows "nextOrderId s = None" and "pickNextOrder s = (None, s)"
  using assms by (simp_all add: pickNextOrder_def nextOrderId_def firstValue_def)

lemma resume_primary:
  assumes wf: "queuesWellFormed s" and fl: "inFlight s = [p]" and pq: "priorityQueue s = h # t"
  shows "\<exists>n. incomingOrdersMap s h = Some n \<and> orderId (orderInfo n) = h
           \<and> inFlight (tryProcessResume w p s) = [n]"
    and "priorityQueue (tryProcessResume w p s) = t"
    and "queue (tryProcessResume w p s) = removeAll h (queue s)"
    and "started (tryProcessResume w p s) = started s @ [h]"
    and "isLocked (tryProcessResume w p s)"
proof -
  note r = resume_next [OF fl, where w = w]
  let ?s2 = "(snd (processOrder w p s))\<lparr>isLocked := False,
      inFlight := remove1 p (inFlight (snd (processOrder w p s)))\<rparr>"
  from wf pq have h: "h \<noteq> []" "h \<notin> set t"
    by (auto simp: queuesWellFormed_def)
  from wf pq obtain n where n: "incomingOrdersMap s h = Some n" "orderId (orderInfo n) = h"
    by (auto simp: queuesWellFormed_def)
  have pq2: "priorityQueue ?s2 = h # t" using r(1) pq by simp
  note pick = pickNextOrder_primary(2) [OF pq2 h(1)]
  define s3 where "s3 = snd (pickNextOrder ?s2)"
  have l3: "\<not> isLocked s3" "inFlight s3 = []" "started s3 = started s"
    by (simp_all add: s3_def pickNextOrder_frame r(4,5,6))
  have f: "fst (pickNextOrder ?s2) = Some n"
    by (simp add: pick r(3) n(1))
  have q3: "priorityQueue s3 = setDelete h (priorityQueue ?s2)" "queue s3 = setDelete h (queue ?s2)"
    by (simp_all add: s3_def pick)
  have res: "tryProcessResume w p s =
      s3\<lparr>isLocked := True, inFlight := inFlight s3 @ [n],
          started := started s3 @ [orderId (orderInfo n)]\<rparr>"
    unfolding r(7) f s3_def [symmetric] by (simp add: tryProcess_idle [OF l3(1)])
  show "\<exists>n. incomingOrdersMap s h = Some n \<and> orderId (orderInfo n) = h
           \<and> inFlight (tryProcessResume w p s) = [n]"
    using n by (simp add: res l3)
  show "priorityQueue (tryProcessResume w p s) = t"
    unfolding res using h(2) by (simp add: q3 pq2 setDelete_def)
  show "queue (tryProcessResume w p s) = removeAll h (queue s)"
    unfolding res by (simp add: q3 r(2) setDelete_def)
  show "started (tryProcessResume w p s) = started s @ [h]"
    unfolding res by (simp add: l3 n(2))
  show "isLocked (tryProcessResume w p s)"
    unfolding res by simp
qed

lemma resume_secondary:
  assumes wf: "queuesWellFormed s" and fl: "inFlight s = [p]"
    and pq: "priorityQueue s = []" and q: "queue s = h # t"
  shows "\<exists>n. incomingOrdersMap s h = Some n \<and> orderId (orderInfo n) = h
           \<and> inFlight (tryProcessResume w p s) = [n]"
    and "priorityQueue (tryProcessResume w p s) = []"
    and "queue (tryProcessResume w p s) = t"
    and "started (tryProcessResume w p s) = started s @ [h]"
    and "isLocked (tryProcessResume w p s)"
proof -
  note r = resume_next [OF fl, where w = w]
  let ?s2 = "(snd (processOrder w p s))\<lparr>isLocked := False,
      inFlight := remove1 p (inFlight (snd (processOrder w p s)))\<rparr>"
  from wf q have h: "h \<noteq> []" "h \<notin> set t"
    by (auto simp: queuesWellFormed_def)
  from wf q obtain n where n: "incomingOrdersMap s h = Some n" "orderId (orderInfo n) = h"
    by (auto simp: queuesWellFormed_def)
  have pq2: "priorityQueue ?s2 = []" using r(1) pq by simp
  have q2: "queue ?s2 = h # t" using r(2) q by simp
  note pick = pickNextOrder_secondary(2) [OF pq2 q2 h(1)]
  define s3 where "s3 = snd (pickNextOrder ?s2)"
  have l3: "\<not> isLocked s3" "inFlight s3 = []" "started s3 = started s"
    by (simp_all add: s3_def pickNextOrder_frame r(4,5,6))
  have f: "fst (pickNextOrder ?s2) = Some n"
    by (simp add: pick r(3) n(1))
  have q3: "priorityQueue s3 = setDelete h (priorityQueue ?s2)" "queue s3 = setDelete h (queue ?s2)"
    by (simp_all add: s3_def pick)
  have res: "tryProcessResume w p s =
      s3\<lparr>isLocked := True, inFlight := inFlight s3 @ [n],
          started := started s3 @ [orderId (orderInfo n)]\<rparr>"
    unfolding r(7) f s3_def [symmetric] by (simp add: tryProcess_idle [OF l3(1)])
  show "\<exists>n. incomingOrdersMap s h = Some n \<and> orderId (orderInfo n) = h
           \<and> inFlight (tryProcessResume w p s) = [n]"
    using n by (simp add: res l3)
  show "priorityQueue (tryProcessResume w p s) = []"
    unfolding res by (simp add: q3 pq2 setDelete_def)
  show "queue (tryProcessResume w p s) = t"
    unfolding res using h(2) by (simp add: q3 q2 setDelete_def)
  show "started (tryProcessResume w p s) = started s @ [h]"
    unfolding res by (simp add: l3 n(2))
  show "isLocked (tryProcessResume w p s)"
    unfolding res by simp
qed

lemma resume_none:
  assumes fl: "inFlight s = [p]" and pq: "priorityQueue s = []" and q: "queue s = []"
  shows "inFlight (tryProcessResume w p s) = []"
    and "priorityQueue (tryProcessResume w p s) = []"
    and "queue (tryProcessResume w p s) = []"
    and "started (tryProcessResume w p s) = started s"
    and "\<not> isLocked (tryProcessResume w p s)"
proof -
  note r = resume_next [OF fl, where w = w]
  let ?s2 = "(snd (processOrder w p s))\<lparr>isLocked := False,
      inFlight := remove1 p (inFlight (snd (processOrder w p s)))\<rparr>"
  have pq2: "priorityQueue ?s2 = []" using r(1) pq by simp
  have q2: "queue ?s2 = []" using r(2) q by simp
  have res: "tryProcessResume w p s = ?s2"
    unfolding r(7) by (simp add: pickNextOrder_none(2) [OF pq2 q2])
  show "inFlight (tryProcessResume w p s) = []" unfolding res using r(5) .
  show "priorityQueue (tryProcessResume w p s) = []" unfolding res using pq2 .
  show "queue (tryProcessResume w p s) = []" unfolding res using q2 .
  show "started (tryProcessResume w p s) = started s" unfolding res using r(6) .
  show "\<not> isLocked (tryProcessResume w p s)" unfolding res using r(4) .
qed

lemma filter_not_head:
  "filter (\<lambda>i. i \<notin> set (h # t)) q = filter (\<lambda>i. i \<notin> set t) (removeAll h q)"
  by (induction q) auto

lemma drain_order:
  assumes "queuesWellFormed s" "inFlight s = [p]"
    and "length (priorityQueue s) + length (queue s) < length ws"
  shows "started (drain ws s) =
           started s @ priorityQueue s @ filter (\<lambda>i. i \<notin> set (priorityQueue s)) (queue s)
         \<and> \<not> isLocked (drain ws s) \<and> inFlight (drain ws s) = []
         \<and> priorityQueue (drain ws s) = [] \<and> queue (drain ws s) = []"
  using assms
proof (induction ws arbitrary: s p)
  case Nil
  then show ?case by simp
next
  case (Cons w ws)
  note wf = Cons.prems(1) and fl = Cons.prems(2) and fuel = Cons.prems(3) and IH = Cons.IH
  have d: "drain (w # ws) s = drain ws (tryProcessResume w p s)"
    by (simp add: fl)
  have wf': "queuesWellFormed (tryProcessResume w p s)" by (rule wf_resume [OF wf])
  show ?case
  proof (cases "priorityQueue s")
    case pq: (Cons h t)
    note r = resume_primary [OF wf fl pq, of w]
    from r(1) obtain n where n: "inFlight (tryProcessResume w p s) = [n]" by blast
    have len: "length (priorityQueue (tryProcessResume w p s)) + length (queue (tryProcessResume w p s)) < length ws"
    proof -
      have "length (removeAll h (queue s)) \<le> length (queue s)"
        by (rule length_removeAll_less_eq)
      moreover have "Suc (length t) + length (queue s) < Suc (length ws)"
        using fuel pq by simp
      ultimately show ?thesis unfolding r(2,3) by linarith
    qed
    note ih = IH [OF wf' n len]
    have fh: "filter (\<lambda>i. i \<notin> set (priorityQueue s)) (queue s)
              = filter (\<lambda>i. i \<notin> set t) (removeAll h (queue s))"
      unfolding pq by (rule filter_not_head)
    show ?thesis
      unfolding d fh using ih by (simp add: r(2,3,4) pq)
  next
    case pq: Nil
    show ?thesis
    proof (cases "queue s")
      case q: (Cons h t)
      note r = resume_secondary [OF wf fl pq q, of w]
      from r(1) obtain n where n: "inFlight (tryProcessResume w p s) = [n]" by blast
      have len: "length (priorityQueue (tryProcessResume w p s)) + length (queue (tryProcessResume w p s)) < length ws"
        using fuel q by (simp add: r(2,3) pq)
      note ih = IH [OF wf' n len]
      show ?thesis
        unfolding d using ih by (simp add: r(2,3,4) q pq)
    next
      case q: Nil
      note r = resume_none [OF fl pq q, of w]
      have "drain ws (tryProcessResume w p s) = tryProcessResume w p s"
        by (cases ws) (simp_all add: r(1))
      then show ?thesis
        unfolding d by (simp add: r pq q)
    qed
  qed
qed

lemma serial_in_flight:
  "serial s \<Longrightarrow> length (inFlight s) \<le> 1 \<and> (isLocked s \<longleftrightarrow> inFlight s \<noteq> [])"
  by (cases "inFlight s") (auto simp: serial_def split: if_splits)

lemma process_busy:
  "isLocked s \<Longrightarrow> status (orderInfo p) = Created \<Longrightarrow>
     process p s =
       Inr (s\<lparr>priorityQueue := setAdd (orderId (orderInfo p)) (priorityQueue s),
              incomingOrdersMap := (incomingOrdersMap s)(orderId (orderInfo p) \<mapsto> p)\<rparr>)"
  "isLocked s \<Longrightarrow> status (orderInfo p) = ArchivalCreated \<Longrightarrow>
     process p s =
       Inr (s\<lparr>queue := setAdd (orderId (orderInfo p)) (queue s),
              incomingOrdersMap := (incomingOrdersMap s)(orderId (orderInfo p) \<mapsto> p)\<rparr>)"
  by (simp_all add: process_created tryProcess_busy)

lemma process_idle:
  "\<not> isLocked s \<Longrightarrow> status (orderInfo p) = Created \<or> status (orderInfo p) = ArchivalCreated \<Longrightarrow>
     process p s = Inr (s\<lparr>isLocked := True, inFlight := inFlight s @ [p],
                             started := started s @ [orderId (orderInfo p)]\<rparr>)"
  by (simp add: process_created tryProcess_idle)

lemma step_arrive_busy:
  "isLocked s \<Longrightarrow> status (orderInfo p) = Created \<Longrightarrow>
     step (Arrive p) s =
       Some (s\<lparr>priorityQueue := setAdd (orderId (orderInfo p)) (priorityQueue s),
              incomingOrdersMap := (incomingOrdersMap s)(orderId (orderInfo p) \<mapsto> p)\<rparr>)"
  "isLocked s \<Longrightarrow> status (orderInfo p) = ArchivalCreated \<Longrightarrow>
     step (Arrive p) s =
       Some (s\<lparr>queue := setAdd (orderId (orderInfo p)) (queue s),
              incomingOrdersMap := (incomingOrdersMap s)(orderId (orderInfo p) \<mapsto> p)\<rparr>)"
  by (simp_all add: step_def process_busy)

text \<open>Some runs on concrete values, used by the closed examples.\<close>

lemma busyS1_reached: "run [Arrive paramsS1] (initialProcessor defaultParams) = Some busyS1"
  by (simp add: step_def process_def tryProcess_def paramsS1_def eventS1_def busyS1_def
        processorS1_def initialProcessor_def)

lemma arrival_fields:
  "orderId (orderInfo (arrival i st)) = i" "status (orderInfo (arrival i st)) = st"
  by (simp_all add: arrival_def)

lemma busyS1_fields:
  "isLocked busyS1" "inFlight busyS1 = [paramsS1]" "started busyS1 = [''O1'']"
  "priorityQueue busyS1 = []" "queue busyS1 = []" "incomingOrdersMap busyS1 = Map.empty"
  by (simp_all add: busyS1_def processorS1_def initialProcessor_def)

lemma onceS8_reached: "process (arrival ''O2'' Created) busyS1 = Inr onceS8"
  unfolding onceS8_def
  by (simp add: process_busy(1) arrival_fields busyS1_fields setAdd_def)

lemma onceS8_fields:
  "isLocked onceS8" "priorityQueue onceS8 = [''O2'']" "queue onceS8 = []"
  "incomingOrdersMap onceS8 = [''O2'' \<mapsto> arrival ''O2'' Created]"
  "inFlight onceS8 = [paramsS1]" "started onceS8 = [''O1'']"
  by (simp_all add: onceS8_def busyS1_fields)



lemma queuedS2_reached:
  "run [Arrive (arrival ''C1'' Created), Arrive (arrival ''A1'' ArchivalCreated),
        Arrive (arrival ''C2'' Created), Arrive (arrival ''A2'' ArchivalCreated)] busyS1
     = Some queuedS2"
  unfolding queuedS2_def
  by (simp add: step_arrive_busy arrival_fields busyS1_fields setAdd_def)

text \<open>
  Claim C1. In every state a processor can reach from its initial state, whatever events
  arrive and whenever the orders in flight settle, at most one order is in flight, and
  one is in flight exactly when the processor is locked. A \<open>Created\<close> or
  \<open>ArchivalCreated\<close> event that arrives at a locked processor is only put into its queue
  (with its context): no \<open>processOrder\<close> is invoked and the order in flight stays. At an
  idle processor it takes the lock and is the one order in flight. When the order in
  flight settles the lock is released, and it stays released if nothing is queued.
\<close>

theorem serial_processing:
  assumes "run evs (initialProcessor ps) = Some s"
  shows "length (inFlight s) \<le> 1 \<and> (isLocked s \<longleftrightarrow> inFlight s \<noteq> [])
     \<and> (\<forall>p. isLocked s \<and> status (orderInfo p) \<in> {Created, ArchivalCreated} \<longrightarrow>
           (\<exists>s'. process p s = Inr s' \<and> inFlight s' = inFlight s \<and> started s' = started s
                 \<and> isLocked s' \<and> incomingOrdersMap s' (orderId (orderInfo p)) = Some p
                 \<and> orderId (orderInfo p)
                     \<in> set (if status (orderInfo p) = Created then priorityQueue s' else queue s')))
     \<and> (\<forall>p. \<not> isLocked s \<and> status (orderInfo p) \<in> {Created, ArchivalCreated} \<longrightarrow>
           (\<exists>s'. process p s = Inr s' \<and> isLocked s' \<and> inFlight s' = [p]
                 \<and> started s' = started s @ [orderId (orderInfo p)]))
     \<and> (\<forall>w p. p \<in> set (inFlight s) \<longrightarrow>
           inFlight s = [p] \<and> serial (tryProcessResume w p s)
           \<and> (priorityQueue s = [] \<and> queue s = [] \<longrightarrow>
                \<not> isLocked (tryProcessResume w p s) \<and> inFlight (tryProcessResume w p s) = []))"
proof -
  have ser: "serial s" by (rule serial_run [OF serial_initial assms])
  note one = serial_in_flight [OF ser]
  have busy: "\<exists>s'. process p s = Inr s' \<and> inFlight s' = inFlight s \<and> started s' = started s
                 \<and> isLocked s' \<and> incomingOrdersMap s' (orderId (orderInfo p)) = Some p
                 \<and> orderId (orderInfo p)
                     \<in> set (if status (orderInfo p) = Created then priorityQueue s' else queue s')"
    if "isLocked s \<and> status (orderInfo p) \<in> {Created, ArchivalCreated}" for p
  proof (cases "status (orderInfo p) = Created")
    case True
    show ?thesis using that True by (simp add: process_busy(1) setAdd_def)
  next
    case False
    then have "status (orderInfo p) = ArchivalCreated" using that by simp
    then show ?thesis using that by (simp add: process_busy(2) setAdd_def)
  qed
  have idle: "\<exists>s'. process p s = Inr s' \<and> isLocked s' \<and> inFlight s' = [p]
                 \<and> started s' = started s @ [orderId (orderInfo p)]"
    if "\<not> isLocked s \<and> status (orderInfo p) \<in> {Created, ArchivalCreated}" for p
  proof -
    have "inFlight s = []" using that one by simp
    then show ?thesis using that by (simp add: process_idle)
  qed
  have settle: "inFlight s = [p] \<and> serial (tryProcessResume w p s)
           \<and> (priorityQueue s = [] \<and> queue s = [] \<longrightarrow>
                \<not> isLocked (tryProcessResume w p s) \<and> inFlight (tryProcessResume w p s) = [])"
    if "p \<in> set (inFlight s)" for w p
  proof -
    have fl: "inFlight s = [p]" using that one by (cases "inFlight s") auto
    show ?thesis
      using fl serial_resume [OF ser that, of w] resume_none(1,5) [OF fl, of w] by blast
  qed
  from one busy idle settle show ?thesis by blast
qed


text \<open>
  The processor that works on the first scenario's order postpones \<open>O2\<close>; when the
  order in flight settles with nothing queued, the processor is idle.
\<close>

theorem serial_processing_witness:
  "run [Arrive paramsS1] (initialProcessor defaultParams) = Some busyS1
   \<and> isLocked busyS1 \<and> length (inFlight busyS1) \<le> 1
   \<and> process (arrival ''O2'' Created) busyS1 = Inr onceS8
   \<and> inFlight onceS8 = inFlight busyS1 \<and> started onceS8 = started busyS1
   \<and> \<not> isLocked (tryProcessResume worldS1 paramsS1 busyS1)
   \<and> inFlight (tryProcessResume worldS1 paramsS1 busyS1) = []"
proof -
  note t = serial_processing [OF busyS1_reached]
  have a: "length (inFlight busyS1) \<le> 1" by (rule t [THEN conjunct1])
  have m: "paramsS1 \<in> set (inFlight busyS1)" by (simp add: busyS1_fields)
  have e: "priorityQueue busyS1 = [] \<and> queue busyS1 = []" by (simp add: busyS1_fields)
  note u = t [THEN conjunct2, THEN conjunct2, THEN conjunct2, THEN conjunct2, rule_format,
                OF m, THEN conjunct2, THEN conjunct2, rule_format, OF e]
  have b: "\<not> isLocked (tryProcessResume worldS1 paramsS1 busyS1)
      \<and> inFlight (tryProcessResume worldS1 paramsS1 busyS1) = []"
    by (rule u)
  have c: "inFlight onceS8 = inFlight busyS1 \<and> started onceS8 = started busyS1"
    by (simp add: onceS8_fields busyS1_fields)
  from a b c busyS1_reached onceS8_reached busyS1_fields(1) show ?thesis by (intro conjI) simp_all
qed

section \<open>The order of processing\<close>



text \<open>
  Claim C2. In a state a processor can reach by events that carry their order id,
  \<open>pickNextOrder\<close> takes the earliest id of the primary queue when that queue is not
  empty, and the earliest id of the secondary queue only when the primary queue is empty;
  the id leaves both queues. Left alone, a busy processor so processes the primary queue
  in order, then what remains of the secondary queue in order. In particular a busy
  processor with empty queues that receives \<open>C1, A1, C2, A2\<close> processes them, after the
  order in flight, as \<open>C1, C2, A1, A2\<close>.
\<close>

theorem primary_before_secondary:
  assumes "run evs (initialProcessor ps) = Some s" "arrivalsHaveIds evs"
  shows "(\<forall>h t. priorityQueue s = h # t \<longrightarrow>
            nextOrderId s = Some h \<and> fst (pickNextOrder s) = incomingOrdersMap s h
            \<and> priorityQueue (snd (pickNextOrder s)) = t
            \<and> h \<notin> set (queue (snd (pickNextOrder s))))
       \<and> (\<forall>h t. priorityQueue s = [] \<and> queue s = h # t \<longrightarrow>
            nextOrderId s = Some h \<and> fst (pickNextOrder s) = incomingOrdersMap s h
            \<and> queue (snd (pickNextOrder s)) = t)
       \<and> (priorityQueue s = [] \<and> queue s = [] \<longrightarrow> pickNextOrder s = (None, s))
       \<and> (\<forall>ws. isLocked s \<and> length (priorityQueue s) + length (queue s) < length ws \<longrightarrow>
            started (drain ws s) =
              started s @ priorityQueue s @ filter (\<lambda>i. i \<notin> set (priorityQueue s)) (queue s)
            \<and> \<not> isLocked (drain ws s))
       \<and> (\<forall>c1 a1 c2 a2 s' ws.
            isLocked s \<and> priorityQueue s = [] \<and> queue s = []
            \<and> status (orderInfo c1) = Created \<and> status (orderInfo a1) = ArchivalCreated
            \<and> status (orderInfo c2) = Created \<and> status (orderInfo a2) = ArchivalCreated
            \<and> distinct (map (\<lambda>p. orderId (orderInfo p)) [c1, a1, c2, a2])
            \<and> [] \<notin> set (map (\<lambda>p. orderId (orderInfo p)) [c1, a1, c2, a2])
            \<and> run [Arrive c1, Arrive a1, Arrive c2, Arrive a2] s = Some s'
            \<and> 4 < length ws \<longrightarrow>
            started (drain ws s') =
              started s @ map (\<lambda>p. orderId (orderInfo p)) [c1, c2, a1, a2]
            \<and> \<not> isLocked (drain ws s'))"
proof (intro conjI allI impI)
  have ser: "serial s" by (rule serial_run [OF serial_initial assms(1)])
  have wf: "queuesWellFormed s" by (rule wf_run [OF wf_initial assms(2,1)])
  {
    fix h t assume pq: "priorityQueue s = h # t"
    from wf pq have h: "h \<noteq> []" "h \<notin> set t" by (auto simp: queuesWellFormed_def)
    note pick = pickNextOrder_primary [OF pq h(1)]
    show "nextOrderId s = Some h" by (rule pick(1))
    show "fst (pickNextOrder s) = incomingOrdersMap s h" by (simp add: pick(2))
    show "priorityQueue (snd (pickNextOrder s)) = t"
      using h(2) by (simp add: pick(2) pq setDelete_def)
    show "h \<notin> set (queue (snd (pickNextOrder s)))"
      by (simp add: pick(2) setDelete_def)
  }
  {
    fix h t assume "priorityQueue s = [] \<and> queue s = h # t"
    then have pq: "priorityQueue s = []" and q: "queue s = h # t" by simp_all
    from wf q have h: "h \<noteq> []" "h \<notin> set t" by (auto simp: queuesWellFormed_def)
    note pick = pickNextOrder_secondary [OF pq q h(1)]
    show "nextOrderId s = Some h" by (rule pick(1))
    show "fst (pickNextOrder s) = incomingOrdersMap s h" by (simp add: pick(2))
    show "queue (snd (pickNextOrder s)) = t"
      using h(2) by (simp add: pick(2) q setDelete_def)
  }
  {
    assume "priorityQueue s = [] \<and> queue s = []"
    then show "pickNextOrder s = (None, s)" by (simp add: pickNextOrder_none(2))
  }
  {
    fix ws :: "World list"
    assume a: "isLocked s \<and> length (priorityQueue s) + length (queue s) < length ws"
    then obtain p where fl: "inFlight s = [p]"
      using ser by (cases "inFlight s") (auto simp: serial_def)
    note d = drain_order [OF wf fl, of ws]
    show "started (drain ws s) =
              started s @ priorityQueue s @ filter (\<lambda>i. i \<notin> set (priorityQueue s)) (queue s)"
      using d a by blast
    show "\<not> isLocked (drain ws s)" using d a by blast
  }
  {
    fix c1 a1 c2 a2 s' and ws :: "World list"
    assume a: "isLocked s \<and> priorityQueue s = [] \<and> queue s = []
            \<and> status (orderInfo c1) = Created \<and> status (orderInfo a1) = ArchivalCreated
            \<and> status (orderInfo c2) = Created \<and> status (orderInfo a2) = ArchivalCreated
            \<and> distinct (map (\<lambda>p. orderId (orderInfo p)) [c1, a1, c2, a2])
            \<and> [] \<notin> set (map (\<lambda>p. orderId (orderInfo p)) [c1, a1, c2, a2])
            \<and> run [Arrive c1, Arrive a1, Arrive c2, Arrive a2] s = Some s'
            \<and> 4 < length ws"
    then obtain p where fl: "inFlight s = [p]"
      using ser by (cases "inFlight s") (auto simp: serial_def)
    from a have ids: "arrivalsHaveIds [Arrive c1, Arrive a1, Arrive c2, Arrive a2]"
      by (auto simp: arrivalsHaveIds_def)
    from a have r: "run [Arrive c1, Arrive a1, Arrive c2, Arrive a2] s = Some s'" by simp
    have wf': "queuesWellFormed s'" by (rule wf_run [OF wf ids r])
    have s': "priorityQueue s' = [orderId (orderInfo c1), orderId (orderInfo c2)]"
         "queue s' = [orderId (orderInfo a1), orderId (orderInfo a2)]"
         "inFlight s' = [p]" "started s' = started s"
      using r a fl by (auto simp: step_arrive_busy setAdd_def)
    note d = drain_order [OF wf' s'(3), of ws]
    have len: "length (priorityQueue s') + length (queue s') < length ws"
      using a by (simp add: s')
    have f: "filter (\<lambda>i. i \<notin> set (priorityQueue s')) (queue s') = queue s'"
      using a by (auto simp: s')
    show "started (drain ws s') = started s @ map (\<lambda>p. orderId (orderInfo p)) [c1, c2, a1, a2]"
      using d [OF len] unfolding f by (simp add: s')
    show "\<not> isLocked (drain ws s')" using d [OF len] by blast
  }
qed


text \<open>The scenario on concrete events, settled against five worlds.\<close>

theorem primary_before_secondary_witness:
  "run [Arrive (arrival ''C1'' Created), Arrive (arrival ''A1'' ArchivalCreated),
        Arrive (arrival ''C2'' Created), Arrive (arrival ''A2'' ArchivalCreated)] busyS1
     = Some queuedS2
   \<and> started (drain [worldS1, worldS1, worldS1, worldS1, worldS1] queuedS2)
       = [''O1'', ''C1'', ''C2'', ''A1'', ''A2'']
   \<and> \<not> isLocked (drain [worldS1, worldS1, worldS1, worldS1, worldS1] queuedS2)"
proof -
  have ids: "arrivalsHaveIds [Arrive paramsS1]"
    by (simp add: arrivalsHaveIds_def paramsS1_def eventS1_def)
  let ?ws = "[worldS1, worldS1, worldS1, worldS1, worldS1]"
  have d: "distinct (map (\<lambda>p. orderId (orderInfo p))
             [arrival ''C1'' Created, arrival ''A1'' ArchivalCreated,
              arrival ''C2'' Created, arrival ''A2'' ArchivalCreated])"
    by (simp add: arrival_fields)
  have n: "[] \<notin> set (map (\<lambda>p. orderId (orderInfo p))
             [arrival ''C1'' Created, arrival ''A1'' ArchivalCreated,
              arrival ''C2'' Created, arrival ''A2'' ArchivalCreated])"
    by (simp add: arrival_fields)
  have l: "4 < length ?ws" by simp
  have pre: "isLocked busyS1 \<and> priorityQueue busyS1 = [] \<and> queue busyS1 = []
            \<and> status (orderInfo (arrival ''C1'' Created)) = Created
            \<and> status (orderInfo (arrival ''A1'' ArchivalCreated)) = ArchivalCreated
            \<and> status (orderInfo (arrival ''C2'' Created)) = Created
            \<and> status (orderInfo (arrival ''A2'' ArchivalCreated)) = ArchivalCreated
            \<and> distinct (map (\<lambda>p. orderId (orderInfo p))
                 [arrival ''C1'' Created, arrival ''A1'' ArchivalCreated,
                  arrival ''C2'' Created, arrival ''A2'' ArchivalCreated])
            \<and> [] \<notin> set (map (\<lambda>p. orderId (orderInfo p))
                 [arrival ''C1'' Created, arrival ''A1'' ArchivalCreated,
                  arrival ''C2'' Created, arrival ''A2'' ArchivalCreated])
            \<and> run [Arrive (arrival ''C1'' Created), Arrive (arrival ''A1'' ArchivalCreated),
                    Arrive (arrival ''C2'' Created), Arrive (arrival ''A2'' ArchivalCreated)] busyS1
                 = Some queuedS2
            \<and> 4 < length ?ws"
    by (intro conjI busyS1_fields arrival_fields d n l queuedS2_reached)
  note t = primary_before_secondary [OF busyS1_reached ids, THEN conjunct2, THEN conjunct2,
      THEN conjunct2, THEN conjunct2, rule_format, OF pre]
  have s: "started busyS1 @ map (\<lambda>p. orderId (orderInfo p))
           [arrival ''C1'' Created, arrival ''C2'' Created,
            arrival ''A1'' ArchivalCreated, arrival ''A2'' ArchivalCreated]
         = [''O1'', ''C1'', ''C2'', ''A1'', ''A2'']"
    by (simp add: busyS1_fields arrival_fields)
  show ?thesis
    using t queuedS2_reached unfolding s by (intro conjI) blast+
qed

section \<open>Enqueueing an order twice\<close>






section \<open>Admission by the strict processor\<close>





















section \<open>Further properties\<close>

text \<open>
  Where the order ids come from. An event the executor forwards carries an order id, and
  an order that \<open>processOrder\<close> puts into the mempool carries an order id and a payload:
  the arrivals of a processor that is fed by its executor and its mempool are of the
  kind \<open>arrivalsHaveIds\<close> asks for.
\<close>

theorem arrivals_carry_ids:
  "(\<forall>c p. snd (executeOrder ex ev) = Inr (Forwarded c p) \<longrightarrow> arrivalsHaveIds [Arrive p])
   \<and> (\<forall>i q. mempool (snd (processOrder w p s)) i = Some q \<and> mempool s i \<noteq> Some q \<longrightarrow>
         arrivalsHaveIds [Arrive q] \<and> order (orderInfo q) \<noteq> None)"
proof (intro conjI allI impI)
  fix c p
  assume "snd (executeOrder ex ev) = Inr (Forwarded c p)"
  then have "orderId (orderInfo p) \<noteq> []"
    by (auto simp: executeOrder_def Let_def split: option.splits if_splits sum.splits)
  then show "arrivalsHaveIds [Arrive p]" by (simp add: arrivalsHaveIds_def)
next
  fix i q
  assume a: "mempool (snd (processOrder w p s)) i = Some q \<and> mempool s i \<noteq> Some q"
  show "arrivalsHaveIds [Arrive q]"
  proof (cases "processOrderChecks w p")
    case (Inl e)
    then show ?thesis using a by (simp add: processOrder_def)
  next
    case (Inr ord)
    then have ok: "orderId (orderInfo p) \<noteq> []"
      by (auto simp: processOrderChecks_def Let_def split: option.splits if_splits)
    have "q = p\<lparr>attempts := None\<rparr>"
      using a Inr
      by (auto simp: processOrder_def processOrderFulfill_def mempoolAddOrder_def unlockOrder_def
            Let_def split: if_splits sum.splits)
    then show ?thesis using ok by (simp add: arrivalsHaveIds_def)
  qed
  show "order (orderInfo q) \<noteq> None"
  proof (cases "processOrderChecks w p")
    case (Inl e)
    then show ?thesis using a by (simp add: processOrder_def)
  next
    case (Inr ord)
    then have ok: "order (orderInfo p) \<noteq> None"
      by (auto simp: processOrderChecks_def Let_def split: option.splits if_splits)
    have "q = p\<lparr>attempts := None\<rparr>"
      using a Inr
      by (auto simp: processOrder_def processOrderFulfill_def mempoolAddOrder_def unlockOrder_def
            Let_def split: if_splits sum.splits)
    then show ?thesis using ok by simp
  qed
qed


text \<open>The order deferred as not profitable is stored with its id.\<close>

theorem arrivals_carry_ids_witness:
  "arrivalsHaveIds [Arrive (paramsS1\<lparr>attempts := None\<rparr>)]
   \<and> mempool (snd (processOrder worldS3 paramsS1 processorS1)) ''O1'' = Some (paramsS1\<lparr>attempts := None\<rparr>)"
proof -
  have m: "mempool (snd (processOrder worldS3 paramsS1 processorS1)) ''O1'' = Some (paramsS1\<lparr>attempts := None\<rparr>)"
    by (simp add: processOrder_def processOrderChecks_def processOrderFulfill_def mempoolAddOrder_def
          paramsS1_def eventS1_def worldS3_def worldS1_def findBucket_def findFirstToken_def
          usdcBucket_def orderS1_def)
  have e: "mempool processorS1 ''O1'' \<noteq> Some (paramsS1\<lparr>attempts := None\<rparr>)"
    by (simp add: processorS1_def initialProcessor_def)
  have "arrivalsHaveIds [Arrive (paramsS1\<lparr>attempts := None\<rparr>)]"
    using arrivals_carry_ids [of executorS1 eventS1 worldS3 paramsS1 processorS1,
            THEN conjunct2, rule_format, of "''O1''" "paramsS1\<lparr>attempts := None\<rparr>"] m e
    by blast
  with m show ?thesis by blast
qed


text \<open>
  A disabled destination. When the take chain was initialised as disabled, no
  \<open>Created\<close> or \<open>ArchivalCreated\<close> event for it is forwarded, whatever the other
  filters answer.
\<close>

theorem disabled_chain_receives_nothing:
  assumes "initChain globalFilters d = Inr takeChain" "cd_disabled d"
    and "order ev = Some ord"
    and "chains' ex (chainId (take_offer ord)) = Some takeChain"
    and "status ev = Created \<or> status ev = ArchivalCreated"
  shows "\<forall>c p. snd (executeOrder ex ev) \<noteq> Inr (Forwarded c p)"
proof (cases "orderId ev = []")
  case True
  then show ?thesis using assms(3) by (simp add: executeOrder_def)
next
  case id: False
  show ?thesis
  proof (cases "chains' ex (chainId (give ord))")
    case None
    then show ?thesis using assms(3,4) id by (simp add: executeOrder_def)
  next
    case (Some giveChain)
    have "disableFulfill (cd_chain d) \<in> set (dstFilters takeChain)"
      using assms(1,2) by (simp add: initChain_filters(1))
    then have f: "disableFulfill (cd_chain d) \<in> set (dstFilters takeChain @ srcFilters giveChain)"
      by simp
    let ?answers = "map (\<lambda>filter. filter ord (chain' giveChain) (chain' takeChain))
                      (dstFilters takeChain @ srcFilters giveChain)"
    have "\<not> (\<forall>filter \<in> set (dstFilters takeChain @ srcFilters giveChain).
              filter ord (chain' giveChain) (chain' takeChain) = Inr True)"
    proof
      assume "\<forall>filter \<in> set (dstFilters takeChain @ srcFilters giveChain).
              filter ord (chain' giveChain) (chain' takeChain) = Inr True"
      then have "disableFulfill (cd_chain d) ord (chain' giveChain) (chain' takeChain) = Inr True"
        using f by blast
      then show False by (simp add: disableFulfill_def)
    qed
    then have nf: "\<not> (\<exists>results. promiseAll ?answers = Inr results \<and> list_all (\<lambda>it. it) results)"
      unfolding promiseAll_all_true ball_map .
    show ?thesis
    proof (cases "promiseAll ?answers")
      case (Inl e)
      then show ?thesis
        unfolding executeOrder_filtered [OF assms(3) id assms(4) Some assms(5)] Let_def by simp
    next
      case (Inr results)
      then have "\<not> list_all (\<lambda>it. it) results" using nf by blast
      then show ?thesis
        unfolding executeOrder_filtered [OF assms(3) id assms(4) Some assms(5)] Let_def
        using Inr by simp
    qed
  qed
qed


text \<open>Polygon, disabled, gets \<open>disableFulfill\<close> and is not handed the first scenario's order.\<close>

theorem disabled_chain_receives_nothing_witness:
  "initChain [] \<lparr>cd_chain = Polygon, cd_disabled = True, cd_dstFilters = [\<lambda>c. acceptAll],
                 cd_srcFilters = [], cd_requiredConfirmationsThresholds = []\<rparr>
     = Inr \<lparr>chain' = Polygon, srcFilters = [], dstFilters = [acceptAll, disableFulfill Polygon],
            usdAmountConfirmations = []\<rparr>
   \<and> snd (executeOrder executorS4 eventS1) \<noteq>
        Inr (Forwarded Polygon \<lparr>orderInfo = eventS1, ctx_giveChain = Arbitrum,
                                 ctx_buckets = [usdcBucket], attempts = Some 0\<rparr>)"
proof -
  let ?d = "\<lparr>cd_chain = Polygon, cd_disabled = True, cd_dstFilters = [\<lambda>c. acceptAll],
                 cd_srcFilters = [], cd_requiredConfirmationsThresholds = []\<rparr>"
  let ?tc = "\<lparr>chain' = Polygon, srcFilters = [], dstFilters = [acceptAll, disableFulfill Polygon],
            usdAmountConfirmations = []\<rparr>"
  have i: "initChain [] ?d = Inr ?tc"
    by (simp add: initChain_def getConfirmationRanges_def sortByUsdWorth_def)
  have dis: "cd_disabled ?d" by simp
  have o: "order eventS1 = Some orderS1" "status eventS1 = Created \<or> status eventS1 = ArchivalCreated"
    by (simp_all add: eventS1_def)
  note t = disabled_chain_receives_nothing [OF i dis o(1) executorS4_chains(1) o(2)]
  from t i show ?thesis by blast
qed


text \<open>
  The wait of the strict processor. From \<open>iteration\<close> on the loop asks at most
  \<open>limit - iteration\<close> more times. When every query answers, it throws exactly when
  neither the state it starts with nor any of these answers is \<open>Fulfilled\<close>, and
  otherwise it returns.
\<close>

theorem waitFulfilled_bound:
  "length (fst (waitFulfilled poll it left st)) \<le> left
   \<and> (snd (waitFulfilled (\<lambda>n. Inr (answers n)) it left st) = Inl RetriesLimitReached \<longleftrightarrow>
        st \<noteq> Some OrderFulfilled \<and> (\<forall>k \<in> {1..left}. answers (it + k) \<noteq> Some OrderFulfilled))
   \<and> (snd (waitFulfilled (\<lambda>n. Inr (answers n)) it left st) = Inr () \<or>
        snd (waitFulfilled (\<lambda>n. Inr (answers n)) it left st) = Inl RetriesLimitReached)"
proof (intro conjI)
  show "length (fst (waitFulfilled poll it left st)) \<le> left"
    by (induction left arbitrary: it st) (auto simp: Let_def split: sum.splits)
next
  let ?poll = "\<lambda>n. Inr (answers n) :: error + OrderState option"
  have both: "(snd (waitFulfilled ?poll it left st) = Inl RetriesLimitReached \<longleftrightarrow>
        st \<noteq> Some OrderFulfilled \<and> (\<forall>k \<in> {1..left}. answers (it + k) \<noteq> Some OrderFulfilled))
     \<and> (snd (waitFulfilled ?poll it left st) = Inr () \<or>
        snd (waitFulfilled ?poll it left st) = Inl RetriesLimitReached)"
  proof (induction left arbitrary: it st)
    case 0
    then show ?case by simp
  next
    case (Suc left)
    have r: "(\<forall>k \<in> {1..Suc left}. answers (it + k) \<noteq> Some OrderFulfilled) \<longleftrightarrow>
          answers (Suc it) \<noteq> Some OrderFulfilled \<and> (\<forall>k \<in> {1..left}. answers (Suc it + k) \<noteq> Some OrderFulfilled)"
    proof (intro iffI conjI ballI)
      assume a: "\<forall>k \<in> {1..Suc left}. answers (it + k) \<noteq> Some OrderFulfilled"
      show "answers (Suc it) \<noteq> Some OrderFulfilled" using a [rule_format, of 1] by simp
      fix k assume "k \<in> {1..left}"
      then have "Suc k \<in> {1..Suc left}" by simp
      then show "answers (Suc it + k) \<noteq> Some OrderFulfilled" using a [rule_format, of "Suc k"] by simp
    next
      fix k
      assume b: "answers (Suc it) \<noteq> Some OrderFulfilled
          \<and> (\<forall>k \<in> {1..left}. answers (Suc it + k) \<noteq> Some OrderFulfilled)"
        and k: "k \<in> {1..Suc left}"
      show "answers (it + k) \<noteq> Some OrderFulfilled"
      proof (cases "k = 1")
        case True
        then show ?thesis using b by simp
      next
        case False
        then obtain j where j: "k = Suc j" "j \<in> {1..left}" using k by (cases k) auto
        then show ?thesis using b [THEN conjunct2, rule_format, of j] by simp
      qed
    qed
    show ?case
      unfolding r using Suc.IH [of "Suc it" "answers (Suc it)"]
      by (auto simp: Let_def)
  qed
  from both show "snd (waitFulfilled ?poll it left st) = Inl RetriesLimitReached \<longleftrightarrow>
        st \<noteq> Some OrderFulfilled \<and> (\<forall>k \<in> {1..left}. answers (it + k) \<noteq> Some OrderFulfilled)"
    by blast
  from both show "snd (waitFulfilled ?poll it left st) = Inr () \<or>
        snd (waitFulfilled ?poll it left st) = Inl RetriesLimitReached"
    by blast
qed


text \<open>A chain that never reports the order gives up after the ten polls.\<close>

theorem waitFulfilled_bound_witness:
  "snd (waitFulfilled (\<lambda>n. Inr None) 0 10 None) = Inl RetriesLimitReached
   \<and> length (fst (waitFulfilled (\<lambda>n. Inr None) 0 10 None)) \<le> 10"
  using waitFulfilled_bound [of "\<lambda>n. Inr None" 0 10 None "\<lambda>n. None"] by simp


end
